theory Spec2Isabelle
  imports Main "HOL-Library.Word" "HOL-Library.Sublist"
begin

unbundle bit_operations_syntax

section \<open>Response parser of the GSM AT library (gsm\_parser.c, gsm\_sms.c)\<close>

text \<open>
  A C string is modelled as a \<^typ>\<open>string\<close> without its terminating NUL: the end of the
  list is the terminator, and a cursor \<open>const char*\<close> into a string is the suffix that is
  still to be read.  A function that advances \<open>*src\<close> returns the new suffix next to its
  result.  Input strings are NUL-free, as every C string is.
\<close>

subsection \<open>Characters\<close>

text \<open>
  Modelled from the spec: the macros \<open>GSM_CHARISNUM\<close> and \<open>GSM_CHARTONUM\<close> are
  declared in a header that is not part of the sources at hand.  The spec says that the
  number tokenizer accumulates decimal digits by \<open>digit * 10 + value\<close> and stops at the
  first non-digit, so the first macro tests for \<open>'0'..'9'\<close> and the second subtracts \<open>'0'\<close>.
\<close>

definition GSM_CHARISNUM :: "char \<Rightarrow> bool" where
  "GSM_CHARISNUM x = (48 \<le> (of_char x :: nat) \<and> (of_char x :: nat) \<le> 57)"

definition GSM_CHARTONUM :: "char \<Rightarrow> 32 word" where
  "GSM_CHARTONUM x = of_char x - 48"

abbreviation quote :: char where "quote \<equiv> CHR 0x22"
abbreviation CR :: char where "CR \<equiv> CHR 0x0D"
abbreviation LF :: char where "LF \<equiv> CHR 0x0A"

text \<open>The idiom \<open>if (*p == c) { p++; }\<close>; at the end of the string nothing is skipped.\<close>

fun skip_char :: "char \<Rightarrow> string \<Rightarrow> string" where
  "skip_char c [] = []"
| "skip_char c (x # p) = (if x = c then p else x # p)"

subsection \<open>gsmi\_parse\_number\<close>

text \<open>
  The \<open>while (GSM_CHARISNUM(*p))\<close> loop.  \<open>val\<close> is an \<open>int32_t\<close>; the accumulation is
  written on \<^typ>\<open>32 word\<close>, so that it wraps around where the C arithmetic overflows.
\<close>

fun number_loop :: "32 word \<Rightarrow> string \<Rightarrow> 32 word \<times> string" where
  "number_loop val [] = (val, [])"
| "number_loop val (c # p) =
     (if GSM_CHARISNUM c then number_loop (val * 10 + GSM_CHARTONUM c) p
      else (val, c # p))"

text \<open>The result is the returned \<open>int32_t\<close> (read it with \<^const>\<open>sint\<close>) and the new cursor.\<close>

definition gsmi_parse_number :: "string \<Rightarrow> 32 word \<times> string" where
  "gsmi_parse_number str =
     (let p = skip_char quote str;
          p = skip_char CHR '','' p;
          p = skip_char quote p;
          minus = (case p of [] \<Rightarrow> False | x # _ \<Rightarrow> x = CHR ''-'');
          p = (if minus then tl p else p);
          (val, p) = number_loop 0 p;
          p = skip_char CHR '','' p
      in (if minus then - val else val, p))"

text \<open>
  The integer that a string of decimal digits denotes, independently of the code: the
  positional sum \<open>\<Sum> d\<^sub>i * 10 ^ i\<close> over the digits, least significant first.
\<close>

definition digit_value :: "char \<Rightarrow> nat" where
  "digit_value c = of_char c - 48"

definition dec_value :: "string \<Rightarrow> nat" where
  "dec_value ds = horner_sum digit_value 10 (rev ds)"

text \<open>The integer denoted by a string matching \<open>-?[0-9]+\<close>.\<close>

definition int_value :: "string \<Rightarrow> int" where
  "int_value s =
     (case s of [] \<Rightarrow> 0
      | c # ds \<Rightarrow> if c = CHR ''-'' then - int (dec_value ds) else int (dec_value (c # ds)))"

text \<open>The strings matching \<open>-?[0-9]+\<close>.\<close>

definition is_decimal :: "string \<Rightarrow> bool" where
  "is_decimal s =
     (case s of [] \<Rightarrow> False
      | c # ds \<Rightarrow> if c = CHR ''-'' then ds \<noteq> [] \<and> list_all GSM_CHARISNUM ds
                  else list_all GSM_CHARISNUM (c # ds))"

subsection \<open>gsmi\_parse\_string\<close>

text \<open>
  The \<open>while (*p)\<close> loop.  \<open>has_dst\<close> says that \<open>dst\<close> is not \<open>NULL\<close>, \<open>i\<close> counts the
  characters copied, \<open>dst\<close> collects them in order, and \<open>p[1]\<close> of the last character of
  the string is the terminating NUL, which is none of comma, CR and LF.  The \<open>break\<close>
  of the branch \<open>!trim\<close> leaves the cursor on the character that did not fit.
\<close>

fun string_loop :: "bool \<Rightarrow> nat \<Rightarrow> bool \<Rightarrow> nat \<Rightarrow> string \<Rightarrow> string \<Rightarrow> string \<times> string" where
  "string_loop has_dst dst_len trim i dst [] = (dst, [])"
| "string_loop has_dst dst_len trim i dst (c # p) =
     (if c = quote \<and> (case p of [] \<Rightarrow> False | d # _ \<Rightarrow> d = CHR '','' \<or> d = CR \<or> d = LF)
      then (dst, p)
      else if has_dst then
        (if i < dst_len then string_loop has_dst dst_len trim (Suc i) (dst @ [c]) p
         else if \<not> trim then (dst, c # p)
         else string_loop has_dst dst_len trim i dst p)
      else string_loop has_dst dst_len trim i dst p)"

text \<open>
  The result is the C string left in the destination (\<open>None\<close> when \<open>dst\<close> is \<open>NULL\<close>;
  the terminating NUL that the function writes is the end of the list) and the new
  cursor.  The function returns 1 on every path, so the return value is left out.
\<close>

definition gsmi_parse_string :: "string \<Rightarrow> bool \<Rightarrow> nat \<Rightarrow> bool \<Rightarrow> string option \<times> string" where
  "gsmi_parse_string src has_dst dst_len trim =
     (let p = skip_char CHR '','' src;
          p = skip_char quote p;
          dst_len = (if dst_len \<noteq> 0 then dst_len - 1 else dst_len);
          (dst, p) = string_loop has_dst dst_len trim 0 [] p
      in (if has_dst then Some dst else None, p))"

subsection \<open>gsmi\_parse\_memory and gsmi\_parse\_memories\_string\<close>

text \<open>
  \<open>strncmp(s1, s2, n) == 0\<close>: at most \<open>n\<close> characters are compared, and the comparison
  ends at the first difference or after a common terminating NUL.
\<close>

fun strncmp_eq :: "string \<Rightarrow> string \<Rightarrow> nat \<Rightarrow> bool" where
  "strncmp_eq s1 s2 0 = True"
| "strncmp_eq [] [] (Suc n) = True"
| "strncmp_eq [] (y # s2) (Suc n) = False"
| "strncmp_eq (x # s1) [] (Suc n) = False"
| "strncmp_eq (x # s1) (y # s2) (Suc n) = (x = y \<and> strncmp_eq s1 s2 n)"

text \<open>
  An entry of the device table \<open>gsm_dev_mem_map\<close>.  The table, its size and the
  enumeration \<open>gsm_mem_t\<close> are declared outside the sources at hand: the table is a
  parameter of the functions below (its length is \<open>gsm_dev_mem_map_size\<close>), a selector is
  its ordinal number, and the ordinal of \<open>GSM_MEM_UNKNOWN\<close> is a parameter as well.
\<close>

record gsm_dev_mem_map_t =
  mem :: nat
  mem_str :: string

text \<open>
  The \<open>for\<close> loop over the table: the first entry whose name compares equal over its own
  length sets \<open>mem\<close>, moves \<open>s\<close> past the name and ends the loop.
\<close>

fun mem_map_scan :: "gsm_dev_mem_map_t list \<Rightarrow> nat \<Rightarrow> string \<Rightarrow> nat \<times> string" where
  "mem_map_scan [] m s = (m, s)"
| "mem_map_scan (e # es) m s =
     (let sl = length (mem_str e)
      in if strncmp_eq s (mem_str e) sl then (mem e, drop sl s) else mem_map_scan es m s)"

definition gsmi_parse_memory :: "gsm_dev_mem_map_t list \<Rightarrow> nat \<Rightarrow> string \<Rightarrow> nat \<times> string" where
  "gsmi_parse_memory gsm_dev_mem_map GSM_MEM_UNKNOWN src =
     (let s = skip_char CHR '','' src;
          s = skip_char quote s;
          (m, s) = mem_map_scan gsm_dev_mem_map GSM_MEM_UNKNOWN s;
          s = (if m = GSM_MEM_UNKNOWN then snd (gsmi_parse_string s False 0 True) else s);
          s = skip_char quote s
      in (m, s))"

text \<open>
  \<open>GSM_U32(1 << GSM_U32(mem))\<close> on a 32-bit word.  For a selector of 32 or more the C
  shift is undefined; \<^const>\<open>push_bit\<close> gives 0 there.
\<close>

definition mem_bit :: "nat \<Rightarrow> 32 word" where
  "mem_bit m = push_bit m 1"

text \<open>
  The \<open>do ... while (*str && *str != ')')\<close> loop.  It need not end (an entry with an
  empty name matches everywhere without moving the cursor), so it is a partial
  function: \<open>None\<close> is the loop that runs forever.
\<close>

partial_function (option) memories_loop ::
    "gsm_dev_mem_map_t list \<Rightarrow> nat \<Rightarrow> 32 word \<Rightarrow> string \<Rightarrow> (32 word \<times> string) option" where
  "memories_loop gsm_dev_mem_map GSM_MEM_UNKNOWN mem_dst str =
     (let r = gsmi_parse_memory gsm_dev_mem_map GSM_MEM_UNKNOWN str;
          mem_dst = mem_dst OR mem_bit (fst r);
          str = snd r
      in if str \<noteq> [] \<and> hd str \<noteq> CHR '')''
         then memories_loop gsm_dev_mem_map GSM_MEM_UNKNOWN mem_dst str
         else Some (mem_dst, str))"

declare memories_loop.simps [code]

text \<open>The result is the bit field stored through \<open>mem_dst\<close> and the new cursor.\<close>

definition gsmi_parse_memories_string ::
    "gsm_dev_mem_map_t list \<Rightarrow> nat \<Rightarrow> string \<Rightarrow> (32 word \<times> string) option" where
  "gsmi_parse_memories_string gsm_dev_mem_map GSM_MEM_UNKNOWN src =
     (let str = skip_char CHR '','' src;
          str = skip_char CHR ''('' str
      in case memories_loop gsm_dev_mem_map GSM_MEM_UNKNOWN 0 str of
           None \<Rightarrow> None
         | Some (mem_dst, str) \<Rightarrow> Some (mem_dst, skip_char CHR '')'' str))"

text \<open>
  The text of a list of memory names as the device sends it between the brackets, for the
  entries \<open>es\<close> of the table: each name in quotes, the names separated by commas.
\<close>

fun mem_list_text :: "gsm_dev_mem_map_t list \<Rightarrow> string" where
  "mem_list_text [] = []"
| "mem_list_text [e] = quote # mem_str e @ [quote]"
| "mem_list_text (e # es) = quote # mem_str e @ quote # CHR '','' # mem_list_text es"

text \<open>The bit field with the bit of every selector of \<open>es\<close> set.\<close>

definition mem_list_bits :: "gsm_dev_mem_map_t list \<Rightarrow> 32 word" where
  "mem_list_bits es = foldr (\<lambda>e w. mem_bit (mem e) OR w) es 0"

text \<open>
  The repeated calls of the spec: the selectors that \<open>k\<close> successive calls of
  \<open>gsmi_parse_memory\<close> return from \<open>str\<close> on, in order, and the cursor after the last one.
\<close>

fun memory_calls :: "gsm_dev_mem_map_t list \<Rightarrow> nat \<Rightarrow> nat \<Rightarrow> string \<Rightarrow> nat list \<times> string" where
  "memory_calls tbl unk 0 str = ([], str)"
| "memory_calls tbl unk (Suc k) str =
     (let r = gsmi_parse_memory tbl unk str;
          rs = memory_calls tbl unk k (snd r)
      in (fst r # fst rs, snd rs))"

text \<open>The cursor is at the end of the input or at a closing bracket.\<close>

definition memory_list_end :: "string \<Rightarrow> bool" where
  "memory_list_end c = (c = [] \<or> hd c = CHR '')'')"

text \<open>
  Call \<open>k + 1\<close> is the first one that leaves the cursor at the end of the input or at a
  closing bracket.
\<close>

definition memory_list_stops :: "gsm_dev_mem_map_t list \<Rightarrow> nat \<Rightarrow> nat \<Rightarrow> string \<Rightarrow> bool" where
  "memory_list_stops tbl unk k str =
     ((\<forall>j<k. \<not> memory_list_end (snd (memory_calls tbl unk (Suc j) str)))
      \<and> memory_list_end (snd (memory_calls tbl unk (Suc k) str)))"


text \<open>
  An entry that is its own first match: no entry before it in the table has a name that
  is a prefix of its name.  An entry that can stand in a list is its own first match and
  has a selector that is not the unknown one and is below 32, the width of the bit field.
\<close>

definition first_match :: "gsm_dev_mem_map_t list \<Rightarrow> gsm_dev_mem_map_t \<Rightarrow> bool" where
  "first_match tbl e = (find (\<lambda>f. prefix (mem_str f) (mem_str e)) tbl = Some e)"

definition listable :: "gsm_dev_mem_map_t list \<Rightarrow> nat \<Rightarrow> gsm_dev_mem_map_t \<Rightarrow> bool" where
  "listable tbl unk e = (first_match tbl e \<and> mem e \<noteq> unk \<and> mem e < 32)"

subsection \<open>gsmi\_parse\_cpin\<close>

text \<open>
  The values of \<open>gsm_sim_state_t\<close> that the parser assigns, and the event type it sends.
\<close>

datatype gsm_sim_state_t =
    GSM_SIM_STATE_NOT_INSERTED
  | GSM_SIM_STATE_READY
  | GSM_SIM_STATE_NOT_READY
  | GSM_SIM_STATE_PIN
  | GSM_SIM_STATE_PUK

datatype gsm_cb_type_t = GSM_CB_CPIN

text \<open>
  The calls to the collaborators \<open>gsmi_get_sim_info\<close> and \<open>gsmi_send_cb\<close> are recorded,
  in order, in a log that is part of the state.
\<close>

datatype gsm_call = Call_gsmi_get_sim_info nat | Call_gsmi_send_cb gsm_cb_type_t

text \<open>The part of the global \<open>gsm\<close> that the parser touches.\<close>

record gsm_t =
  sim_state :: gsm_sim_state_t
  cb_cpin_state :: gsm_sim_state_t
  calls :: "gsm_call list"

text \<open>
  \<open>None\<close> is undefined behaviour: the string starts with \<open>+\<close> and is shorter than the 7
  characters that \<open>str += 7\<close> steps over.  The function returns 1 on every other path.
\<close>

definition gsmi_parse_cpin :: "gsm_t \<Rightarrow> string \<Rightarrow> bool \<Rightarrow> gsm_t option" where
  "gsmi_parse_cpin gsm str send_evt =
     (if str \<noteq> [] \<and> hd str = CHR ''+'' \<and> length str < 7 then None
      else
        let str = (if str \<noteq> [] \<and> hd str = CHR ''+'' then drop 7 str else str);
            gsm =
              (if strncmp_eq str ''READY'' 5 then gsm\<lparr>sim_state := GSM_SIM_STATE_READY\<rparr>
               else if strncmp_eq str ''NOT READY'' 9 then gsm\<lparr>sim_state := GSM_SIM_STATE_NOT_READY\<rparr>
               else if strncmp_eq str ''NOT INSERTED'' 14 then gsm\<lparr>sim_state := GSM_SIM_STATE_NOT_INSERTED\<rparr>
               else if strncmp_eq str ''SIM PIN'' 7 then gsm\<lparr>sim_state := GSM_SIM_STATE_PIN\<rparr>
               else if strncmp_eq str ''PIN PUK'' 7 then gsm\<lparr>sim_state := GSM_SIM_STATE_PUK\<rparr>
               else gsm\<lparr>sim_state := GSM_SIM_STATE_NOT_READY\<rparr>);
            gsm =
              (if sim_state gsm = GSM_SIM_STATE_READY
               then gsm\<lparr>calls := calls gsm @ [Call_gsmi_get_sim_info 0]\<rparr> else gsm);
            gsm =
              (if send_evt
               then gsm\<lparr>cb_cpin_state := sim_state gsm,
                        calls := calls gsm @ [Call_gsmi_send_cb GSM_CB_CPIN]\<rparr>
               else gsm)
        in Some gsm)"

text \<open>A state of the device before the first response, with no call made yet.\<close>

definition gsm_init :: gsm_t where
  "gsm_init =
     \<lparr>sim_state = GSM_SIM_STATE_NOT_READY, cb_cpin_state = GSM_SIM_STATE_NOT_READY, calls = []\<rparr>"

subsection \<open>gsmi\_parse\_sms\_status\<close>

datatype gsm_sms_status_t =
    GSM_SMS_STATUS_ALL
  | GSM_SMS_STATUS_READ
  | GSM_SMS_STATUS_UNREAD
  | GSM_SMS_STATUS_SENT
  | GSM_SMS_STATUS_UNSENT

text \<open>\<open>strcmp(a, b) == 0\<close>: the two C strings are the same.\<close>

definition strcmp_eq :: "string \<Rightarrow> string \<Rightarrow> bool" where
  "strcmp_eq a b = (a = b)"

text \<open>
  The result is the return value (1 as \<open>True\<close>), the status variable \<open>*stat\<close> after the call
  (\<open>stat\<close> is its value before) and the new cursor.  The buffer \<open>t\<close> has 11 bytes.
\<close>

definition gsmi_parse_sms_status ::
    "string \<Rightarrow> gsm_sms_status_t \<Rightarrow> bool \<times> gsm_sms_status_t \<times> string" where
  "gsmi_parse_sms_status src stat =
     (let r = gsmi_parse_string src True 11 True;
          t = the (fst r);
          src = snd r;
          s = (if strcmp_eq t ''REC UNREAD'' then GSM_SMS_STATUS_UNREAD
               else if strcmp_eq t ''REC READ'' then GSM_SMS_STATUS_READ
               else if strcmp_eq t ''STO UNSENT'' then GSM_SMS_STATUS_UNSENT
               else if strcmp_eq t ''REC SENT'' then GSM_SMS_STATUS_SENT
               else GSM_SMS_STATUS_ALL)
      in if s \<noteq> GSM_SMS_STATUS_ALL then (True, s, src) else (False, stat, src))"

subsection \<open>gsmi\_parse\_cops\_scan\<close>

text \<open>
  An operator entry.  \<open>stat\<close> (an enumeration) and \<open>num\<close> (\<open>uint32_t\<close>) are 32-bit words; the
  two names are character arrays, each as long as its list, so that \<open>sizeof\<close> of a name
  is the length of the list.
\<close>

record gsm_operator_t =
  stat :: "32 word"
  long_name :: string
  short_name :: string
  num :: "32 word"

text \<open>
  The static state \<open>u.f\<close> of the scanner.  \<open>tn\<close> is a bit field of 2 bits and \<open>tp\<close> a
  \<open>uint8_t\<close>: both are natural numbers here, and an increment is written with its
  wrap-around.
\<close>

record cops_scan_state =
  bo :: bool
  ccd :: bool
  tn :: nat
  tp :: nat
  ch_prev :: char

text \<open>
  The message \<open>gsm.msg->msg.cops_scan\<close>: the caller's array \<open>ops\<close>, its length \<open>opsl\<close>, the
  index \<open>opsi\<close> of the entry being filled, and the caller's counter behind the pointer
  \<open>opf\<close> (\<open>None\<close> when the pointer is \<open>NULL\<close>).  The caller provides \<open>opsl\<close> entries, so
  the index \<open>opsi < opsl\<close> of every write is inside \<open>ops\<close>.
\<close>

record cops_scan_msg =
  ops :: "gsm_operator_t list"
  opsl :: nat
  opsi :: nat
  opf :: "nat option"

definition cops_scan_reset :: cops_scan_state where
  "cops_scan_reset = \<lparr>bo = False, ccd = False, tn = 0, tp = 0, ch_prev = CHR 0x00\<rparr>"

text \<open>\<open>10 * x + (ch - '0')\<close>, computed modulo \<open>2 ^ 32\<close>.\<close>

definition accum_digit :: "32 word \<Rightarrow> char \<Rightarrow> 32 word" where
  "accum_digit x ch = 10 * x + (of_char ch - 48)"

text \<open>\<open>name[tp++] = ch; name[tp] = 0;\<close> on a character array.\<close>

definition name_put :: "string \<Rightarrow> nat \<Rightarrow> char \<Rightarrow> string" where
  "name_put name p ch = name[p := ch, Suc p := CHR 0x00]"

text \<open>The \<open>switch (u.f.tn)\<close> on a character of a term, for the entry \<open>ops[i]\<close>.\<close>

definition cops_scan_term ::
    "cops_scan_state \<Rightarrow> gsm_operator_t \<Rightarrow> char \<Rightarrow> cops_scan_state \<times> gsm_operator_t" where
  "cops_scan_term u op ch =
     (if tn u = 0 then (u, op\<lparr>stat := accum_digit (stat op) ch\<rparr>)
      else if tn u = 1 then
        (if tp u < length (long_name op) - 1
         then (u\<lparr>tp := (tp u + 1) mod 256\<rparr>, op\<lparr>long_name := name_put (long_name op) (tp u) ch\<rparr>)
         else (u, op))
      else if tn u = 2 then
        (if tp u < length (short_name op) - 1
         then (u\<lparr>tp := (tp u + 1) mod 256\<rparr>, op\<lparr>short_name := name_put (short_name op) (tp u) ch\<rparr>)
         else (u, op))
      else if tn u = 3 then (u, op\<lparr>num := accum_digit (num op) ch\<rparr>)
      else (u, op))"

text \<open>
  One call of the scanner: the static state and the message before the call, the
  character and the reset flag; the result is the two after the call.  The function
  returns 1 on every path.
\<close>

definition gsmi_parse_cops_scan ::
    "cops_scan_state \<times> cops_scan_msg \<Rightarrow> char \<Rightarrow> bool \<Rightarrow> cops_scan_state \<times> cops_scan_msg" where
  "gsmi_parse_cops_scan s ch reset =
     (let u = fst s; msg = snd s in
      if reset then (cops_scan_reset, msg)
      else if ccd u \<or> opsi msg \<ge> opsl msg then (u, msg)
      else
        let (u, msg) =
          (if bo u then
             (if ch = CHR '')'' then
                (u\<lparr>bo := False, tn := 0, tp := 0\<rparr>,
                 msg\<lparr>opsi := opsi msg + 1,
                     opf := (case opf msg of None \<Rightarrow> None | Some _ \<Rightarrow> Some (opsi msg + 1))\<rparr>)
              else if ch = CHR '','' then (u\<lparr>tn := (tn u + 1) mod 4, tp := 0\<rparr>, msg)
              else if ch \<noteq> quote then
                (let i = opsi msg;
                     (u, op) = cops_scan_term u (ops msg ! i) ch
                 in (u, msg\<lparr>ops := (ops msg)[i := op]\<rparr>))
              else (u, msg))
           else
             (if ch = CHR ''('' then (u\<lparr>bo := True\<rparr>, msg)
              else if ch = CHR '','' \<and> ch_prev u = CHR '','' then (u\<lparr>ccd := True\<rparr>, msg)
              else (u, msg)))
        in (u\<lparr>ch_prev := ch\<rparr>, msg))"

text \<open>The characters of a response, fed one call each.\<close>

fun cops_scan_feed ::
    "cops_scan_state \<times> cops_scan_msg \<Rightarrow> string \<Rightarrow> cops_scan_state \<times> cops_scan_msg" where
  "cops_scan_feed s [] = s"
| "cops_scan_feed s (ch # chs) = cops_scan_feed (gsmi_parse_cops_scan s ch False) chs"

text \<open>
  An array of \<open>n\<close> operator entries as \<open>memset\<close> leaves it, here with names of 20 and
  10 bytes, and the message of a scan into it, with the counter of the caller at 0.
\<close>

definition cops_operator_init :: gsm_operator_t where
  "cops_operator_init =
     \<lparr>stat = 0, long_name = replicate 20 (CHR 0x00), short_name = replicate 10 (CHR 0x00), num = 0\<rparr>"

definition cops_msg_init :: "nat \<Rightarrow> cops_scan_msg" where
  "cops_msg_init n = \<lparr>ops = replicate n cops_operator_init, opsl = n, opsi = 0, opf = Some 0\<rparr>"

subsection \<open>gsm\_sms\_send\<close>

datatype gsmr_t = gsmOK | gsmERR | gsmERRNOTENABLED

datatype gsm_cmd_t = GSM_CMD_CMGS | GSM_CMD_CMGF

text \<open>The message that the function fills in; a pointer to a string is the string.\<close>

record gsm_msg_sms_send =
  cmd_def :: gsm_cmd_t
  cmd :: gsm_cmd_t
  sms_send_num :: string
  sms_send_text :: string
  sms_send_format :: nat

text \<open>
  What a call does.  \<open>GSM_ASSERT\<close>, \<open>GSM_MSG_VAR_ALLOC\<close> and
  \<open>gsmi_send_msg_to_producer_mbox\<close> are declared outside the sources at hand: a failed
  assertion rejects the call (\<open>Assert_failed\<close> with the message of the assertion), the
  allocation is taken to succeed, and the call to the mailbox is the outcome \<open>Sent\<close> with
  the message, the blocking flag and the timeout.  \<open>Strlen_of_NULL\<close> is the undefined
  behaviour of \<open>strlen\<close> on a null pointer.
\<close>

datatype sms_send_outcome =
    Assert_failed string
  | Returned gsmr_t
  | Strlen_of_NULL
  | Sent gsm_msg_sms_send nat nat

text \<open>\<open>check_enabled\<close>, on the flag \<open>gsm.sms.enabled\<close>.\<close>

definition check_enabled :: "bool \<Rightarrow> gsmr_t" where
  "check_enabled enabled = (if enabled then gsmOK else gsmERR)"

text \<open>
  A pointer argument is \<open>None\<close> when it is \<open>NULL\<close>.  The condition of the second
  assertion is \<open>num != NULL && strlen(text) <= 160\<close>: \<open>strlen(text)\<close> is evaluated when
  \<open>num\<close> is not \<open>NULL\<close>.
\<close>

definition gsm_sms_send :: "bool \<Rightarrow> string option \<Rightarrow> string option \<Rightarrow> nat \<Rightarrow> sms_send_outcome" where
  "gsm_sms_send enabled num_arg text_arg blocking =
     (if \<not> (num_arg \<noteq> None) then Assert_failed ''num != NULL''
      else
        case text_arg of
          None \<Rightarrow> Strlen_of_NULL
        | Some t \<Rightarrow>
            if \<not> (num_arg \<noteq> None \<and> length t \<le> 160)
            then Assert_failed ''text != NULL && strlen(text) <= 160''
            else if \<not> (check_enabled enabled = gsmOK) then Returned gsmERRNOTENABLED
            else Sent \<lparr>cmd_def = GSM_CMD_CMGS, cmd = GSM_CMD_CMGF,
                        sms_send_num = the num_arg, sms_send_text = t,
                        sms_send_format = 1\<rparr> blocking 60000)"

section \<open>Theorems\<close>

subsection \<open>The number tokenizer\<close>

lemma GSM_CHARTONUM_digit: "GSM_CHARISNUM c \<Longrightarrow> GSM_CHARTONUM c = word_of_nat (digit_value c)"
  by (simp add: GSM_CHARTONUM_def digit_value_def GSM_CHARISNUM_def of_nat_diff of_nat_of_char)

lemma dec_value_Cons: "dec_value (c # ds) = digit_value c * 10 ^ length ds + dec_value ds"
  by (simp add: dec_value_def horner_sum_append)

lemma number_loop_digits:
  "list_all GSM_CHARISNUM ds \<Longrightarrow> (case r of [] \<Rightarrow> True | x # _ \<Rightarrow> \<not> GSM_CHARISNUM x) \<Longrightarrow>
   number_loop val (ds @ r) = (val * 10 ^ length ds + word_of_nat (dec_value ds), r)"
proof (induction ds arbitrary: val)
  case Nil
  then show ?case by (cases r) (simp_all add: dec_value_def)
next
  case (Cons c ds)
  then have c: "GSM_CHARISNUM c" and ds: "list_all GSM_CHARISNUM ds" by simp_all
  have "number_loop val ((c # ds) @ r) = number_loop (val * 10 + GSM_CHARTONUM c) (ds @ r)"
    using c by simp
  also have "\<dots> = ((val * 10 + GSM_CHARTONUM c) * 10 ^ length ds + word_of_nat (dec_value ds), r)"
    using Cons.IH [OF ds Cons.prems(2)] .
  also have "(val * 10 + GSM_CHARTONUM c) * 10 ^ length ds + word_of_nat (dec_value ds)
      = val * 10 ^ length (c # ds) + word_of_nat (dec_value (c # ds))"
    by (simp add: GSM_CHARTONUM_digit [OF c] dec_value_Cons algebra_simps)
  finally show ?case .
qed

lemma comma_not_digit: "\<not> GSM_CHARISNUM CHR '',''"
  by (simp add: GSM_CHARISNUM_def)

lemma minus_not_digit: "\<not> GSM_CHARISNUM CHR ''-''"
  by (simp add: GSM_CHARISNUM_def)

lemma quote_not_digit: "\<not> GSM_CHARISNUM (CHR 0x22)"
  by (simp add: GSM_CHARISNUM_def)

lemma parse_number_digits:
  assumes "ds \<noteq> []" "list_all GSM_CHARISNUM ds"
  shows "gsmi_parse_number (ds @ CHR '','' # rest) = (word_of_nat (dec_value ds), rest)"
proof -
  obtain c cs where ds: "ds = c # cs" using assms(1) by (cases ds) auto
  then have c: "GSM_CHARISNUM c" using assms(2) by simp
  then have ne: "c \<noteq> CHR '',''" "c \<noteq> CHR ''-''" "c \<noteq> CHR 0x22"
    using comma_not_digit minus_not_digit quote_not_digit by auto
  have loop: "number_loop 0 (ds @ CHR '','' # rest) = (word_of_nat (dec_value ds), CHR '','' # rest)"
    using number_loop_digits [OF assms(2), of "CHR '','' # rest" 0] comma_not_digit by simp
  show ?thesis
    using ne loop by (simp add: gsmi_parse_number_def ds)
qed

lemma parse_number_minus_digits:
  assumes "ds \<noteq> []" "list_all GSM_CHARISNUM ds"
  shows "gsmi_parse_number (CHR ''-'' # ds @ CHR '','' # rest) = (- word_of_nat (dec_value ds), rest)"
proof -
  have loop: "number_loop 0 (ds @ CHR '','' # rest) = (word_of_nat (dec_value ds), CHR '','' # rest)"
    using number_loop_digits [OF assms(2), of "CHR '','' # rest" 0] comma_not_digit by simp
  show ?thesis
    using loop by (simp add: gsmi_parse_number_def)
qed

lemma sint_of_nat_small: "n < 2 ^ 31 \<Longrightarrow> sint (word_of_nat n :: 32 word) = int n"
  by (simp add: signed_of_nat signed_take_bit_int_eq_self)

lemma sint_neg_of_nat_small: "n \<le> 2 ^ 31 \<Longrightarrow> sint (- word_of_nat n :: 32 word) = - int n"
proof -
  assume n: "n \<le> 2 ^ 31"
  have "- word_of_nat n = (word_of_int (- int n) :: 32 word)" by simp
  then have "sint (- word_of_nat n :: 32 word) = signed_take_bit 31 (- int n)"
    by (simp only: sint_sbintrunc') simp
  also have "\<dots> = - int n"
    using n by (intro signed_take_bit_int_eq_self) simp_all
  finally show ?thesis .
qed

text \<open>
  C4, as amended.  For every string \<open>s\<close> matching \<open>-?[0-9]+\<close>, \<open>gsmi_parse_number\<close> on \<open>s\<close>
  followed by a comma (and by any further text \<open>rest\<close>) leaves the cursor one character past
  the comma, at \<open>rest\<close>; and when the integer value of \<open>s\<close> is representable as a signed
  32-bit integer, the function returns that value.
\<close>

theorem parse_number_correct:
  assumes "is_decimal s"
  shows "snd (gsmi_parse_number (s @ CHR '','' # rest)) = rest
       \<and> (- (2 ^ 31) \<le> int_value s \<and> int_value s < 2 ^ 31 \<longrightarrow>
            sint (fst (gsmi_parse_number (s @ CHR '','' # rest))) = int_value s)"
proof -
  obtain c ds where s: "s = c # ds" using assms(1) by (cases s) (auto simp: is_decimal_def)
  show ?thesis
  proof (cases "c = CHR ''-''")
    case True
    with assms s have ds: "ds \<noteq> []" "list_all GSM_CHARISNUM ds"
      by (auto simp: is_decimal_def)
    have r: "gsmi_parse_number (s @ CHR '','' # rest) = (- word_of_nat (dec_value ds), rest)"
      using parse_number_minus_digits [OF ds, of rest] by (simp add: s True)
    have "sint (- word_of_nat (dec_value ds) :: 32 word) = int_value s"
      if "- (2 ^ 31) \<le> int_value s"
    proof -
      from that have "dec_value ds \<le> 2 ^ 31" by (simp add: s True int_value_def)
      from sint_neg_of_nat_small [OF this] show ?thesis by (simp add: s True int_value_def)
    qed
    with r show ?thesis by simp
  next
    case False
    with assms s have ds: "s \<noteq> []" "list_all GSM_CHARISNUM s"
      by (auto simp: is_decimal_def)
    have r: "gsmi_parse_number (s @ CHR '','' # rest) = (word_of_nat (dec_value s), rest)"
      using parse_number_digits [OF ds, of rest] by simp
    have "sint (word_of_nat (dec_value s) :: 32 word) = int_value s" if "int_value s < 2 ^ 31"
    proof -
      from that False have "dec_value s < 2 ^ 31" by (simp add: s int_value_def)
      from sint_of_nat_small [OF this] False show ?thesis by (simp add: s int_value_def)
    qed
    with r show ?thesis by simp
  qed
qed

theorem parse_number_correct_witness:
  "is_decimal ''-2147483648'' \<and> is_decimal ''2147483647'' \<and> is_decimal ''99999999999''
   \<and> snd (gsmi_parse_number ''-2147483648,rest'') = ''rest''
   \<and> sint (fst (gsmi_parse_number ''-2147483648,rest'')) = - 2147483648
   \<and> sint (fst (gsmi_parse_number ''2147483647,rest'')) = 2147483647
   \<and> snd (gsmi_parse_number ''2147483647,rest'') = ''rest''
   \<and> snd (gsmi_parse_number ''99999999999,rest'') = ''rest''"
proof -
  have a: "is_decimal ''-2147483648''" and b: "is_decimal ''2147483647''"
    and c: "is_decimal ''99999999999''"
    by (simp_all add: is_decimal_def GSM_CHARISNUM_def)
  have va: "int_value ''-2147483648'' = - 2147483648" and vb: "int_value ''2147483647'' = 2147483647"
    by (simp_all add: int_value_def dec_value_def digit_value_def)
  have 1: "snd (gsmi_parse_number ''-2147483648,rest'') = ''rest''"
    and 2: "sint (fst (gsmi_parse_number ''-2147483648,rest'')) = - 2147483648"
    using parse_number_correct [OF a, of "''rest''"] va by simp_all
  have 3: "snd (gsmi_parse_number ''2147483647,rest'') = ''rest''"
    and 4: "sint (fst (gsmi_parse_number ''2147483647,rest'')) = 2147483647"
    using parse_number_correct [OF b, of "''rest''"] vb by simp_all
  have 5: "snd (gsmi_parse_number ''99999999999,rest'') = ''rest''"
    using parse_number_correct [OF c, of "''rest''"] by simp
  show ?thesis using a b c 1 2 3 4 5 by simp
qed

text \<open>
  C4 as stated fails where the value does not fit: the string \<open>2147483648\<close> matches
  \<open>-?[0-9]+\<close> and denotes \<open>2 ^ 31\<close>, and the function returns \<open>- 2 ^ 31\<close>.
\<close>

theorem parse_number_overflow_counterexample:
  "is_decimal ''2147483648'' \<and> int_value ''2147483648'' = 2147483648
   \<and> gsmi_parse_number ''2147483648,rest'' = (- 2147483648, ''rest'')
   \<and> sint (fst (gsmi_parse_number ''2147483648,rest'')) = - 2147483648
   \<and> sint (fst (gsmi_parse_number ''2147483648,rest'')) \<noteq> int_value ''2147483648''"
  by (simp add: is_decimal_def int_value_def dec_value_def digit_value_def
      gsmi_parse_number_def GSM_CHARISNUM_def GSM_CHARTONUM_def)

subsection \<open>The string tokenizer\<close>

lemma string_loop_token:
  assumes "quote \<notin> set tok" and "trim \<or> i + length tok \<le> n"
  shows "string_loop True n trim i dst (tok @ quote # CHR '','' # rest)
         = (dst @ take (n - i) tok, CHR '','' # rest)"
  using assms
proof (induction tok arbitrary: i dst)
  case Nil
  then show ?case by simp
next
  case (Cons c tok)
  then have c: "c \<noteq> quote" and tok: "quote \<notin> set tok" by auto
  show ?case
  proof (cases "i < n")
    case True
    then have n: "n - i = Suc (n - Suc i)" by simp
    have "trim \<or> Suc i + length tok \<le> n" using Cons.prems(2) by auto
    from Cons.IH [OF tok this, of "dst @ [c]"] show ?thesis
      using c True by (simp add: n)
  next
    case False
    then have trim using Cons.prems(2) by auto
    then have "trim \<or> i + length tok \<le> n" by simp
    from Cons.IH [OF tok this, of dst] show ?thesis
      using c False \<open>trim\<close> by simp
  qed
qed


lemma parse_string_quoted:
  assumes "quote \<notin> set tok" and "trim \<or> length tok < cap"
  shows "gsmi_parse_string (quote # tok @ quote # CHR '','' # rest) True cap trim
         = (Some (take (cap - 1) tok), CHR '','' # rest)"
proof -
  have "trim \<or> 0 + length tok \<le> cap - 1" using assms(2) by auto
  from string_loop_token [OF assms(1) this, of "[]" rest] show ?thesis
    by (cases "cap = 0") (simp_all add: gsmi_parse_string_def)
qed

text \<open>
  C8, as amended.  \<open>gsmi_parse_string\<close> on the input \<open>"hello",rest\<close> with a destination of
  capacity at least 6 writes the null-terminated string \<open>hello\<close>, and with capacity 3 and
  \<open>trim\<close> set it writes \<open>he\<close>; in both cases the whole quoted field is consumed and the
  cursor is left on the comma after the closing quote, so that \<open>,rest\<close> remains.
\<close>

theorem parse_string_hello:
  "(6 \<le> cap \<longrightarrow>
      gsmi_parse_string (''\"hello\",'' @ rest) True cap trim = (Some ''hello'', '','' @ rest))
   \<and> gsmi_parse_string (''\"hello\",'' @ rest) True 3 True = (Some ''he'', '','' @ rest)"
proof -
  have q: "quote \<notin> set ''hello''" by simp
  have a: "gsmi_parse_string (''\"hello\",'' @ rest) True cap trim = (Some ''hello'', '','' @ rest)"
    if "6 \<le> cap"
  proof -
    have "trim \<or> length ''hello'' < cap" using that by simp
    from parse_string_quoted [OF q this, of rest] that show ?thesis by simp
  qed
  have b: "gsmi_parse_string (''\"hello\",'' @ rest) True 3 True = (Some ''he'', '','' @ rest)"
    using parse_string_quoted [OF q, of True 3 rest] by simp
  from a b show ?thesis by simp
qed

theorem parse_string_hello_witness:
  "(6::nat) \<le> 6
   \<and> gsmi_parse_string ''\"hello\",rest'' True 6 False = (Some ''hello'', '',rest'')
   \<and> gsmi_parse_string ''\"hello\",rest'' True 3 True = (Some ''he'', '',rest'')"
  using parse_string_hello [of 6 "''rest''" False] by simp

text \<open>
  C8 as stated puts the cursor at \<open>rest\<close>; the function stops one character earlier, on
  the comma, which it leaves to the leading-comma skip of the next tokenizer call.
\<close>

theorem parse_string_cursor_counterexample:
  "gsmi_parse_string ''\"hello\",rest'' True 6 True = (Some ''hello'', '',rest'')
   \<and> snd (gsmi_parse_string ''\"hello\",rest'' True 6 True) \<noteq> ''rest''
   \<and> gsmi_parse_string ''\"hello\",rest'' True 3 True = (Some ''he'', '',rest'')
   \<and> snd (gsmi_parse_string ''\"hello\",rest'' True 3 True) \<noteq> ''rest''"
  by (simp add: gsmi_parse_string_def)

subsection \<open>The memory tokenizer\<close>

lemma strncmp_eq_prefix: "strncmp_eq s name (length name) = prefix name s"
proof (induction name arbitrary: s)
  case Nil
  show ?case by simp
next
  case (Cons c name)
  show ?case by (cases s) (auto simp: Cons.IH)
qed

lemma mem_map_scan_find:
  "mem_map_scan tbl m s =
     (case find (\<lambda>e. prefix (mem_str e) s) tbl of
        None \<Rightarrow> (m, s)
      | Some e \<Rightarrow> (mem e, drop (length (mem_str e)) s))"
  by (induction tbl) (simp_all add: strncmp_eq_prefix)





subsection \<open>The SMS status\<close>

text \<open>
  C7, as amended.  \<open>gsmi_parse_sms_status\<close> compares the quoted token, cut to the 10
  characters that fit its buffer of 11 bytes, for equality with the four literals
  \<open>REC UNREAD\<close>, \<open>REC READ\<close>, \<open>STO UNSENT\<close> and \<open>REC SENT\<close>, and maps them to UNREAD,
  READ, UNSENT and SENT with a success result; for every token whose first 10 characters
  are none of the four it reports failure and leaves the status variable of the caller
  unchanged.
\<close>

theorem sms_status_match:
  assumes "quote \<notin> set tok"
  shows "gsmi_parse_sms_status (quote # tok @ quote # CHR '','' # rest) st =
     (if take 10 tok = ''REC UNREAD'' then (True, GSM_SMS_STATUS_UNREAD, CHR '','' # rest)
      else if take 10 tok = ''REC READ'' then (True, GSM_SMS_STATUS_READ, CHR '','' # rest)
      else if take 10 tok = ''STO UNSENT'' then (True, GSM_SMS_STATUS_UNSENT, CHR '','' # rest)
      else if take 10 tok = ''REC SENT'' then (True, GSM_SMS_STATUS_SENT, CHR '','' # rest)
      else (False, st, CHR '','' # rest))"
proof -
  have "gsmi_parse_string (quote # tok @ quote # CHR '','' # rest) True 11 True
        = (Some (take 10 tok), CHR '','' # rest)"
    using parse_string_quoted [OF assms, of True 11 rest] by simp
  then show ?thesis
    by (simp add: gsmi_parse_sms_status_def strcmp_eq_def)
qed

theorem sms_status_match_witness:
  "quote \<notin> set ''REC UNREAD'' \<and> quote \<notin> set ''GARBAGE''
   \<and> gsmi_parse_sms_status ''\"REC UNREAD\",rest'' GSM_SMS_STATUS_ALL
       = (True, GSM_SMS_STATUS_UNREAD, '',rest'')
   \<and> gsmi_parse_sms_status ''\"GARBAGE\",rest'' GSM_SMS_STATUS_READ
       = (False, GSM_SMS_STATUS_READ, '',rest'')"
proof -
  have a: "quote \<notin> set ''REC UNREAD''" by simp
  have b: "quote \<notin> set ''GARBAGE''" by simp
  show ?thesis
    using sms_status_match [OF a, of "''rest''" GSM_SMS_STATUS_ALL]
      sms_status_match [OF b, of "''rest''" GSM_SMS_STATUS_READ]
    by simp
qed

text \<open>
  C7 as stated fails on a token that is longer than the buffer: \<open>REC UNREADX\<close> is none
  of the four literals, and it is reported as UNREAD with success.
\<close>

theorem sms_status_truncation_counterexample:
  "''REC UNREADX'' \<notin> set [''REC UNREAD'', ''REC READ'', ''STO UNSENT'', ''REC SENT'']
   \<and> gsmi_parse_sms_status ''\"REC UNREADX\",rest'' GSM_SMS_STATUS_READ
       = (True, GSM_SMS_STATUS_UNREAD, '',rest'')"
  by (simp add: gsmi_parse_sms_status_def gsmi_parse_string_def strcmp_eq_def)

subsection \<open>Lists of memories\<close>

lemma prefix_before_quote:
  assumes "quote \<notin> set name"
  shows "prefix name (s @ quote # tail) = prefix name s"
proof
  assume "prefix name (s @ quote # tail)"
  then consider "prefix name s" | us where "name = s @ us" "prefix us (quote # tail)"
    by (auto simp: prefix_append)
  then show "prefix name s"
  proof cases
    case 1
    then show ?thesis .
  next
    case 2
    with assms have "us = []" by (cases us) auto
    with 2 show ?thesis by simp
  qed
next
  assume "prefix name s"
  then show "prefix name (s @ quote # tail)" by (rule prefix_prefix)
qed

lemma find_first_match:
  assumes "\<forall>f\<in>set tbl. quote \<notin> set (mem_str f)" and "first_match tbl e"
  shows "find (\<lambda>f. prefix (mem_str f) (mem_str e @ quote # tail)) tbl = Some e"
proof -
  have "find (\<lambda>f. prefix (mem_str f) (mem_str e @ quote # tail)) tbl
        = find (\<lambda>f. prefix (mem_str f) (mem_str e)) tbl"
    using assms(1) by (intro find_cong) (auto simp: prefix_before_quote)
  with assms(2) show ?thesis by (simp add: first_match_def)
qed

lemma parse_memory_entry:
  assumes "\<forall>f\<in>set tbl. quote \<notin> set (mem_str f)" and "first_match tbl e" and "mem e \<noteq> unk"
  shows "gsmi_parse_memory tbl unk (quote # mem_str e @ quote # tail) = (mem e, tail)"
    and "gsmi_parse_memory tbl unk (CHR '','' # quote # mem_str e @ quote # tail) = (mem e, tail)"
  using find_first_match [OF assms(1,2), of tail] assms(3)
  by (simp_all add: gsmi_parse_memory_def mem_map_scan_find)

lemma mem_list_text_Cons:
  "es \<noteq> [] \<Longrightarrow> mem_list_text (e # es) = quote # mem_str e @ quote # CHR '','' # mem_list_text es"
  by (cases es) simp_all

lemma mem_list_bits_Cons: "mem_list_bits (e # es) = mem_bit (mem e) OR mem_list_bits es"
  by (simp add: mem_list_bits_def)

lemma memories_loop_list:
  assumes "\<forall>f\<in>set tbl. quote \<notin> set (mem_str f)"
    and "tail = [] \<or> hd tail = CHR '')''"
    and "es \<noteq> []" and "\<forall>e\<in>set es. listable tbl unk e" and "pre = [] \<or> pre = [CHR '','']"
  shows "memories_loop tbl unk acc (pre @ mem_list_text es @ tail)
         = Some (acc OR mem_list_bits es, tail)"
  using assms(3-5)
proof (induction es arbitrary: acc pre rule: list_nonempty_induct)
  case (single e)
  then have e: "first_match tbl e" "mem e \<noteq> unk" by (simp_all add: listable_def)
  have "gsmi_parse_memory tbl unk (pre @ quote # mem_str e @ quote # tail) = (mem e, tail)"
    using single.prems(2) parse_memory_entry [OF assms(1) e] by auto
  then show ?case
    using assms(2) by (subst memories_loop.simps) (auto simp: mem_list_bits_Cons mem_list_bits_def)
next
  case (cons e es)
  then have e: "first_match tbl e" "mem e \<noteq> unk" and es: "\<forall>e\<in>set es. listable tbl unk e"
    by (simp_all add: listable_def)
  let ?next = "CHR '','' # mem_list_text es @ tail"
  have "gsmi_parse_memory tbl unk (pre @ quote # mem_str e @ quote # ?next) = (mem e, ?next)"
    using cons.prems(2) parse_memory_entry [OF assms(1) e] by auto
  then have "memories_loop tbl unk acc (pre @ mem_list_text (e # es) @ tail)
           = memories_loop tbl unk (acc OR mem_bit (mem e)) ([CHR '',''] @ mem_list_text es @ tail)"
    by (subst memories_loop.simps) (simp add: mem_list_text_Cons [OF cons.hyps])
  also have "\<dots> = Some ((acc OR mem_bit (mem e)) OR mem_list_bits es, tail)"
    by (rule cons.IH [OF es]) simp
  finally show ?case
    by (simp add: mem_list_bits_Cons or.assoc)
qed

lemma bit_mem_bit_iff: "bit (mem_bit m) n \<longleftrightarrow> n = m \<and> n < 32"
  by (auto simp: mem_bit_def bit_exp_iff possible_bit_word)

lemma memories_loop_calls:
  assumes "\<forall>j<k. \<not> memory_list_end (snd (memory_calls tbl unk (Suc j) str))"
    and "memory_list_end (snd (memory_calls tbl unk (Suc k) str))"
  shows "\<exists>mask. memories_loop tbl unk acc str = Some (mask, snd (memory_calls tbl unk (Suc k) str))
           \<and> (\<forall>n. bit mask n \<longleftrightarrow> bit acc n \<or> n < 32 \<and> n \<in> set (fst (memory_calls tbl unk (Suc k) str)))"
  using assms
proof (induction k arbitrary: acc str)
  case 0
  then have "memory_list_end (snd (gsmi_parse_memory tbl unk str))" by (simp add: Let_def)
  then have "memories_loop tbl unk acc str
      = Some (acc OR mem_bit (fst (gsmi_parse_memory tbl unk str)), snd (gsmi_parse_memory tbl unk str))"
    by (subst memories_loop.simps) (auto simp: memory_list_end_def Let_def)
  then show ?case
    by (auto simp: Let_def bit_or_iff bit_mem_bit_iff)
next
  case (Suc k)
  define r where "r = gsmi_parse_memory tbl unk str"
  have calls: "memory_calls tbl unk (Suc (Suc j)) str
      = (fst r # fst (memory_calls tbl unk (Suc j) (snd r)), snd (memory_calls tbl unk (Suc j) (snd r)))" for j
    by (simp add: r_def Let_def)
  have first: "\<not> memory_list_end (snd r)"
    using Suc.prems(1) [rule_format, of 0] by (simp add: r_def Let_def)
  have a: "\<forall>j<k. \<not> memory_list_end (snd (memory_calls tbl unk (Suc j) (snd r)))"
  proof (intro allI impI)
    fix j assume "j < k"
    then have "Suc j < Suc k" by simp
    from Suc.prems(1) [rule_format, OF this, unfolded calls snd_conv]
    show "\<not> memory_list_end (snd (memory_calls tbl unk (Suc j) (snd r)))" .
  qed
  have b: "memory_list_end (snd (memory_calls tbl unk (Suc k) (snd r)))"
    using Suc.prems(2) [unfolded calls snd_conv] .
  from Suc.IH [OF a b, of "acc OR mem_bit (fst r)"]
  obtain mask where loop: "memories_loop tbl unk (acc OR mem_bit (fst r)) (snd r)
        = Some (mask, snd (memory_calls tbl unk (Suc k) (snd r)))"
    and bits: "\<forall>n. bit mask n \<longleftrightarrow> bit (acc OR mem_bit (fst r)) n
        \<or> n < 32 \<and> n \<in> set (fst (memory_calls tbl unk (Suc k) (snd r)))"
    by blast
  have "memories_loop tbl unk acc str = memories_loop tbl unk (acc OR mem_bit (fst r)) (snd r)"
    using first by (subst memories_loop.simps) (auto simp: memory_list_end_def Let_def r_def)
  with loop have "memories_loop tbl unk acc str = Some (mask, snd (memory_calls tbl unk (Suc (Suc k)) str))"
    by (simp only: calls snd_conv)
  moreover have "\<forall>n. bit mask n \<longleftrightarrow> bit acc n \<or> n < 32 \<and> n \<in> set (fst (memory_calls tbl unk (Suc (Suc k)) str))"
    using bits by (auto simp only: calls fst_conv bit_or_iff bit_mem_bit_iff set_simps insert_iff)
  ultimately show ?case by blast
qed

lemma memories_loop_Some_step:
  assumes IH: "\<And>tbl unk acc str y. loop tbl unk acc str = Some y \<Longrightarrow>
      \<exists>k. memory_list_stops tbl unk k str"
    and eq: "(let r = gsmi_parse_memory tbl unk str;
                  mem_dst = acc OR mem_bit (fst r);
                  str = snd r
              in if str \<noteq> [] \<and> hd str \<noteq> CHR '')''
                 then loop tbl unk mem_dst str
                 else Some (mem_dst, str)) = Some (y :: 32 word \<times> string)"
  shows "\<exists>k. memory_list_stops tbl unk k str"
proof -
  define r where "r = gsmi_parse_memory tbl unk str"
  have calls: "snd (memory_calls tbl unk (Suc (Suc j)) str)
      = snd (memory_calls tbl unk (Suc j) (snd r))" for j
    by (simp add: r_def Let_def)
  have one: "snd (memory_calls tbl unk (Suc 0) str) = snd r"
    by (simp add: r_def Let_def)
  show ?thesis
  proof (cases "memory_list_end (snd r)")
    case True
    then have "memory_list_stops tbl unk 0 str"
      unfolding memory_list_stops_def one by simp
    then show ?thesis ..
  next
    case False
    with eq have "loop tbl unk (acc OR mem_bit (fst r)) (snd r) = Some y"
      by (simp add: r_def Let_def memory_list_end_def)
    from IH [OF this] obtain k where k: "memory_list_stops tbl unk k (snd r)" ..
    have "\<not> memory_list_end (snd (memory_calls tbl unk (Suc j) str))" if "j < Suc k" for j
    proof (cases j)
      case 0
      from False show ?thesis unfolding 0 one .
    next
      case (Suc i)
      with that k have "\<not> memory_list_end (snd (memory_calls tbl unk (Suc i) (snd r)))"
        by (simp add: memory_list_stops_def)
      then show ?thesis unfolding Suc calls .
    qed
    moreover have "memory_list_end (snd (memory_calls tbl unk (Suc (Suc k)) str))"
      using k unfolding calls memory_list_stops_def by (rule conjunct2)
    ultimately have "memory_list_stops tbl unk (Suc k) str"
      unfolding memory_list_stops_def by simp
    then show ?thesis ..
  qed
qed

lemma memories_loop_Some_calls:
  assumes "memories_loop tbl unk acc str = Some y"
  shows "\<exists>k. memory_list_stops tbl unk k str"
  by (rule memories_loop.raw_induct
      [where P = "\<lambda>tbl unk acc str y. \<exists>k. memory_list_stops tbl unk k str", OF _ assms])
    (rule memories_loop_Some_step)

lemma parse_memories_string_stops:
  assumes "memory_list_stops tbl unk k (skip_char CHR ''('' (skip_char CHR '','' src))"
  shows "\<exists>mask. gsmi_parse_memories_string tbl unk src
          = Some (mask, skip_char CHR '')''
              (snd (memory_calls tbl unk (Suc k) (skip_char CHR ''('' (skip_char CHR '','' src)))))
        \<and> (\<forall>n. bit mask n \<longleftrightarrow> n < 32
            \<and> n \<in> set (fst (memory_calls tbl unk (Suc k)
                  (skip_char CHR ''('' (skip_char CHR '','' src)))))"
proof -
  define str where "str = skip_char CHR ''('' (skip_char CHR '','' src)"
  define c where "c = snd (memory_calls tbl unk (Suc k) str)"
  define ms where "ms = fst (memory_calls tbl unk (Suc k) str)"
  from assms have "(\<forall>j<k. \<not> memory_list_end (snd (memory_calls tbl unk (Suc j) str)))"
     and "memory_list_end (snd (memory_calls tbl unk (Suc k) str))"
    by (simp_all add: memory_list_stops_def str_def)
  from memories_loop_calls [OF this, of 0]
  obtain mask where loop: "memories_loop tbl unk 0 str = Some (mask, c)"
    and bits: "\<forall>n. bit mask n \<longleftrightarrow> bit (0::32 word) n \<or> n < 32 \<and> n \<in> set ms"
    unfolding c_def ms_def by blast
  from bits have bits': "\<forall>n. bit mask n \<longleftrightarrow> n < 32 \<and> n \<in> set ms" by simp
  have "gsmi_parse_memories_string tbl unk src = Some (mask, skip_char CHR '')'' c)"
    using loop by (simp add: gsmi_parse_memories_string_def str_def [symmetric])
  with bits' show ?thesis unfolding c_def ms_def str_def by blast
qed

lemma parse_memories_string_returns:
  assumes "gsmi_parse_memories_string tbl unk src \<noteq> None"
  shows "\<exists>k. memory_list_stops tbl unk k (skip_char CHR ''('' (skip_char CHR '','' src))"
proof -
  from assms obtain y where "memories_loop tbl unk 0 (skip_char CHR ''('' (skip_char CHR '','' src)) = Some y"
    by (cases "memories_loop tbl unk 0 (skip_char CHR ''('' (skip_char CHR '','' src))")
      (simp_all add: gsmi_parse_memories_string_def)
  then show ?thesis by (rule memories_loop_Some_calls)
qed


lemma bit_mem_list_bits: "bit (mem_list_bits es) n \<longleftrightarrow> n < 32 \<and> n \<in> mem ` set es"
  by (induction es) (auto simp: mem_list_bits_def bit_or_iff bit_mem_bit_iff)

lemma parse_memories_string_entries:
  assumes q: "\<forall>f\<in>set tbl. quote \<notin> set (mem_str f)" and ne: "es \<noteq> []"
    and l: "\<forall>e\<in>set es. listable tbl unk e" and pre: "pre = [] \<or> pre = [CHR '','']"
  shows "\<exists>mask. gsmi_parse_memories_string tbl unk
            (pre @ CHR ''('' # mem_list_text es @ CHR '')'' # rest) = Some (mask, rest)
        \<and> gsmi_parse_memories_string tbl unk (pre @ CHR ''('' # mem_list_text es) = Some (mask, [])
        \<and> (\<forall>n. bit mask n \<longleftrightarrow> n \<in> mem ` set es)"
proof -
  have open_list: "skip_char CHR ''('' (skip_char CHR '','' (pre @ CHR ''('' # s)) = s" for s
    using pre by auto
  have "memories_loop tbl unk 0 ([] @ mem_list_text es @ CHR '')'' # rest)
        = Some (0 OR mem_list_bits es, CHR '')'' # rest)"
    by (rule memories_loop_list [OF q _ ne l]) simp_all
  then have 1: "gsmi_parse_memories_string tbl unk (pre @ CHR ''('' # mem_list_text es @ CHR '')'' # rest)
           = Some (mem_list_bits es, rest)"
    by (simp add: gsmi_parse_memories_string_def open_list)
  have "memories_loop tbl unk 0 ([] @ mem_list_text es @ []) = Some (0 OR mem_list_bits es, [])"
    by (rule memories_loop_list [OF q _ ne l]) simp_all
  then have 2: "gsmi_parse_memories_string tbl unk (pre @ CHR ''('' # mem_list_text es)
           = Some (mem_list_bits es, [])"
    by (simp add: gsmi_parse_memories_string_def open_list)
  have 3: "\<forall>n. bit (mem_list_bits es) n \<longleftrightarrow> n \<in> mem ` set es"
    using l by (auto simp: bit_mem_list_bits listable_def)
  from 1 2 3 show ?thesis by (intro exI [of _ "mem_list_bits es"] conjI)
qed

text \<open>
  C6.  \<open>gsmi_parse_memories_string\<close> skips a leading comma and an opening bracket and then
  calls \<open>gsmi_parse_memory\<close> again and again, OR-ing \<open>1 << selector\<close> into the bit field,
  until a call leaves the cursor at a closing bracket or at the end of the input: when call
  \<open>k + 1\<close> is the first such call, the function returns with the cursor after that call and
  past a closing bracket, and, the selectors returned being below 32, bit \<open>n\<close> of the bit
  field is set exactly when \<open>n\<close> is one of the \<open>k + 1\<close> selectors returned, the unknown one
  included; and the function returns only when there is such a call.  For a table whose
  names have no quote in them and a non-empty list \<open>es\<close> of entries that are their own
  first match, with selectors below 32 other than the unknown one, the result on \<open>(\<close>, the
  names of \<open>es\<close>, \<open>)\<close> and any \<open>rest\<close>, with or without a comma before the bracket, has
  exactly the bits of the selectors of \<open>es\<close> and the cursor at \<open>rest\<close>, and without a
  closing bracket the same bit field and the cursor at the end.  In particular the input
  \<open>("SM","ME")rest\<close> against the table SM = 0, ME = 1 gives \<open>0b11\<close> and the cursor at
  \<open>rest\<close>.
\<close>

theorem parse_memories_string_list:
  "(memory_list_stops tbl unk k (skip_char CHR ''('' (skip_char CHR '','' src)) \<longrightarrow>
      (\<exists>mask. gsmi_parse_memories_string tbl unk src
          = Some (mask, skip_char CHR '')''
              (snd (memory_calls tbl unk (Suc k) (skip_char CHR ''('' (skip_char CHR '','' src)))))
        \<and> ((\<forall>m\<in>set (fst (memory_calls tbl unk (Suc k)
                  (skip_char CHR ''('' (skip_char CHR '','' src)))). m < 32) \<longrightarrow>
           (\<forall>n. bit mask n \<longleftrightarrow>
              n \<in> set (fst (memory_calls tbl unk (Suc k)
                  (skip_char CHR ''('' (skip_char CHR '','' src))))))))
   \<and> (gsmi_parse_memories_string tbl unk src \<noteq> None \<longrightarrow>
      (\<exists>k. memory_list_stops tbl unk k (skip_char CHR ''('' (skip_char CHR '','' src))))
   \<and> ((\<forall>f\<in>set tbl. quote \<notin> set (mem_str f)) \<and> es \<noteq> [] \<and> (\<forall>e\<in>set es. listable tbl unk e)
       \<and> (pre = [] \<or> pre = [CHR '','']) \<longrightarrow>
      (\<exists>mask. gsmi_parse_memories_string tbl unk
            (pre @ CHR ''('' # mem_list_text es @ CHR '')'' # rest) = Some (mask, rest)
        \<and> gsmi_parse_memories_string tbl unk (pre @ CHR ''('' # mem_list_text es) = Some (mask, [])
        \<and> (\<forall>n. bit mask n \<longleftrightarrow> n \<in> mem ` set es)))"
proof (intro conjI impI)
  assume "memory_list_stops tbl unk k (skip_char CHR ''('' (skip_char CHR '','' src))"
  then have "\<exists>mask. gsmi_parse_memories_string tbl unk src
          = Some (mask, skip_char CHR '')''
              (snd (memory_calls tbl unk (Suc k) (skip_char CHR ''('' (skip_char CHR '','' src)))))
        \<and> (\<forall>n. bit mask n \<longleftrightarrow> n < 32
            \<and> n \<in> set (fst (memory_calls tbl unk (Suc k)
                  (skip_char CHR ''('' (skip_char CHR '','' src)))))"
    by (rule parse_memories_string_stops)
  then show "\<exists>mask. gsmi_parse_memories_string tbl unk src
          = Some (mask, skip_char CHR '')''
              (snd (memory_calls tbl unk (Suc k) (skip_char CHR ''('' (skip_char CHR '','' src)))))
        \<and> ((\<forall>m\<in>set (fst (memory_calls tbl unk (Suc k)
                  (skip_char CHR ''('' (skip_char CHR '','' src)))). m < 32) \<longrightarrow>
           (\<forall>n. bit mask n \<longleftrightarrow>
              n \<in> set (fst (memory_calls tbl unk (Suc k)
                  (skip_char CHR ''('' (skip_char CHR '','' src))))))"
    by auto
next
  assume "gsmi_parse_memories_string tbl unk src \<noteq> None"
  then show "\<exists>k. memory_list_stops tbl unk k (skip_char CHR ''('' (skip_char CHR '','' src))"
    by (rule parse_memories_string_returns)
next
  assume a: "(\<forall>f\<in>set tbl. quote \<notin> set (mem_str f)) \<and> es \<noteq> [] \<and> (\<forall>e\<in>set es. listable tbl unk e)
       \<and> (pre = [] \<or> pre = [CHR '',''])"
  show "\<exists>mask. gsmi_parse_memories_string tbl unk
            (pre @ CHR ''('' # mem_list_text es @ CHR '')'' # rest) = Some (mask, rest)
        \<and> gsmi_parse_memories_string tbl unk (pre @ CHR ''('' # mem_list_text es) = Some (mask, [])
        \<and> (\<forall>n. bit mask n \<longleftrightarrow> n \<in> mem ` set es)"
    using a by (intro parse_memories_string_entries) simp_all
qed

theorem parse_memories_string_list_witness:
  "gsmi_parse_memories_string [\<lparr>mem = 0, mem_str = ''SM''\<rparr>, \<lparr>mem = 1, mem_str = ''ME''\<rparr>] 31
     ''(\"SM\",\"ME\")rest'' = Some (3, ''rest'')
   \<and> (\<forall>n. bit (3 :: 32 word) n \<longleftrightarrow> n \<in> {0, 1})
   \<and> gsmi_parse_memories_string [\<lparr>mem = 0, mem_str = ''SM''\<rparr>, \<lparr>mem = 1, mem_str = ''ME''\<rparr>] 31
     '',(\"SM\",\"XX\",\"ME\")rest'' = Some (2147483651, ''rest'')
   \<and> (\<forall>n. bit (2147483651 :: 32 word) n \<longleftrightarrow> n \<in> {0, 1, 31})"
proof -
  let ?tbl = "[\<lparr>mem = 0, mem_str = ''SM''\<rparr>, \<lparr>mem = 1, mem_str = ''ME''\<rparr>]"
  let ?k = "Suc (Suc 0)"
  let ?src = "'',(\"SM\",\"XX\",\"ME\")rest''"
  let ?str = "skip_char CHR ''('' (skip_char CHR '','' ?src)"
  have v1: "gsmi_parse_memories_string ?tbl 31 ''(\"SM\",\"ME\")rest'' = Some (3, ''rest'')"
    by code_simp
  have v2: "gsmi_parse_memories_string ?tbl 31 ?src = Some (2147483651, ''rest'')"
    by code_simp
  have calls: "memory_calls ?tbl 31 (Suc ?k) ?str = ([0, 31, 1], '')rest'')"
    by code_simp
  have e0: "\<not> memory_list_end (snd (memory_calls ?tbl 31 (Suc 0) ?str))" by code_simp
  have e1: "\<not> memory_list_end (snd (memory_calls ?tbl 31 (Suc (Suc 0)) ?str))" by code_simp
  have e2: "memory_list_end (snd (memory_calls ?tbl 31 (Suc ?k) ?str))" by code_simp
  have "\<not> memory_list_end (snd (memory_calls ?tbl 31 (Suc j) ?str))" if "j < ?k" for j
  proof -
    from that consider "j = 0" | "j = Suc 0" by (auto simp only: less_Suc_eq not_less_zero)
    then show ?thesis
    proof cases
      case 1
      show ?thesis unfolding 1 by (rule e0)
    next
      case 2
      show ?thesis unfolding 2 by (rule e1)
    qed
  qed
  with e2 have stops: "memory_list_stops ?tbl 31 ?k ?str"
    unfolding memory_list_stops_def by blast
  have hyp: "(\<forall>f\<in>set ?tbl. quote \<notin> set (mem_str f)) \<and> ?tbl \<noteq> []
      \<and> (\<forall>e\<in>set ?tbl. listable ?tbl 31 e) \<and> ([] = [] \<or> [] = [CHR '',''])"
    by (simp add: listable_def first_match_def)
  note inst = parse_memories_string_list [of ?tbl 31 ?k ?src ?tbl "[]" "''rest''"]
  from inst [THEN conjunct2, THEN conjunct2, THEN mp, OF hyp]
  obtain mask1 where mb1: "gsmi_parse_memories_string ?tbl 31
        ([] @ CHR ''('' # mem_list_text ?tbl @ CHR '')'' # ''rest'') = Some (mask1, ''rest'')
      \<and> gsmi_parse_memories_string ?tbl 31 ([] @ CHR ''('' # mem_list_text ?tbl) = Some (mask1, [])
      \<and> (\<forall>n. bit mask1 n \<longleftrightarrow> n \<in> mem ` set ?tbl)" ..
  from mb1 have m1: "gsmi_parse_memories_string ?tbl 31
        ([] @ CHR ''('' # mem_list_text ?tbl @ CHR '')'' # ''rest'') = Some (mask1, ''rest'')"
    by (rule conjunct1)
  from mb1 have b1: "\<forall>n. bit mask1 n \<longleftrightarrow> n \<in> mem ` set ?tbl"
    by (rule conjunct2 [THEN conjunct2])
  have lit1: "[] @ CHR ''('' # mem_list_text ?tbl @ CHR '')'' # ''rest'' = ''(\"SM\",\"ME\")rest''"
    by simp
  from m1 have "Some (3 :: 32 word, ''rest'') = Some (mask1, ''rest'')"
    unfolding lit1 v1 .
  then have eq1: "mask1 = 3" by simp
  from b1 have "\<forall>n. bit mask1 n \<longleftrightarrow> n \<in> {0, 1}" by simp
  then have bits1: "\<forall>n. bit (3 :: 32 word) n \<longleftrightarrow> n \<in> {0, 1}" unfolding eq1 .
  from inst [THEN conjunct1, THEN mp, OF stops]
  obtain mask2 where mb2: "gsmi_parse_memories_string ?tbl 31 ?src
        = Some (mask2, skip_char CHR '')'' (snd (memory_calls ?tbl 31 (Suc ?k) ?str)))
      \<and> ((\<forall>m\<in>set (fst (memory_calls ?tbl 31 (Suc ?k) ?str)). m < 32) \<longrightarrow>
         (\<forall>n. bit mask2 n \<longleftrightarrow> n \<in> set (fst (memory_calls ?tbl 31 (Suc ?k) ?str))))" ..
  have lt: "\<forall>m\<in>set (fst (memory_calls ?tbl 31 (Suc ?k) ?str)). m < 32"
    unfolding calls by simp
  from mb2 have m2: "gsmi_parse_memories_string ?tbl 31 ?src
        = Some (mask2, skip_char CHR '')'' (snd (memory_calls ?tbl 31 (Suc ?k) ?str)))"
    by (rule conjunct1)
  from mb2 [THEN conjunct2, THEN mp, OF lt]
  have b2: "\<forall>n. bit mask2 n \<longleftrightarrow> n \<in> set (fst (memory_calls ?tbl 31 (Suc ?k) ?str))" .
  from m2 have "Some (2147483651 :: 32 word, ''rest'') = Some (mask2, skip_char CHR '')'' (snd ([0 :: nat, 31, 1], '')rest'')))"
    unfolding v2 calls .
  then have eq2: "mask2 = 2147483651" by simp
  have sel: "n \<in> set [0 :: nat, 31, 1] \<longleftrightarrow> n \<in> {0, 1, 31}" for n
    by auto
  from b2 have "\<forall>n. bit mask2 n \<longleftrightarrow> n \<in> {0, 1, 31}" unfolding calls fst_conv sel .
  then have bits2: "\<forall>n. bit (2147483651 :: 32 word) n \<longleftrightarrow> n \<in> {0, 1, 31}" unfolding eq2 .
  from v1 bits1 v2 bits2 show ?thesis by (intro conjI)
qed














subsection \<open>The operator scanner\<close>

lemma cops_scan_frozen_step:
  "ccd (fst s) \<or> opsl (snd s) \<le> opsi (snd s) \<Longrightarrow> gsmi_parse_cops_scan s ch False = s"
  by (simp add: gsmi_parse_cops_scan_def)

lemma cops_scan_frozen_feed:
  "ccd (fst s) \<or> opsl (snd s) \<le> opsi (snd s) \<Longrightarrow> cops_scan_feed s chs = s"
  by (induction chs) (simp_all add: cops_scan_frozen_step)

lemma cops_scan_feed_append: "cops_scan_feed s (xs @ ys) = cops_scan_feed (cops_scan_feed s xs) ys"
  by (induction xs arbitrary: s) simp_all

lemma cops_scan_two_commas:
  assumes "\<not> bo (fst s)" and "\<not> ccd (fst s)" and "opsi (snd s) < opsl (snd s)"
  shows "cops_scan_feed s '',,'' = ((fst s)\<lparr>ccd := True, ch_prev := CHR '',''\<rparr>, snd s)"
  using assms by (cases s) (simp add: gsmi_parse_cops_scan_def)

lemma cops_scan_close:
  assumes "bo (fst s)" and "\<not> ccd (fst s)" and "opsi (snd s) < opsl (snd s)"
  shows "gsmi_parse_cops_scan s (CHR '')'') False
    = ((fst s)\<lparr>bo := False, tn := 0, tp := 0, ch_prev := CHR '')''\<rparr>,
       (snd s)\<lparr>opsi := opsi (snd s) + 1, opf := map_option (\<lambda>_. opsi (snd s) + 1) (opf (snd s))\<rparr>)"
  using assms by (cases s) (simp add: gsmi_parse_cops_scan_def map_option_case cong: option.case_cong)

lemma cops_scan_comma:
  assumes "bo (fst s)" and "\<not> ccd (fst s)" and "opsi (snd s) < opsl (snd s)"
  shows "gsmi_parse_cops_scan s (CHR '','') False
    = ((fst s)\<lparr>tn := (tn (fst s) + 1) mod 4, tp := 0, ch_prev := CHR '',''\<rparr>, snd s)"
  using assms by (cases s) (simp add: gsmi_parse_cops_scan_def)

lemma tn_cops_scan_term: "tn (fst (cops_scan_term u op ch)) = tn u"
  by (simp add: cops_scan_term_def)

lemma tn_cops_scan_step:
  "tn (fst s) < 4 \<Longrightarrow> tn (fst (gsmi_parse_cops_scan s ch reset)) < 4"
  by (simp add: gsmi_parse_cops_scan_def cops_scan_reset_def Let_def split_beta tn_cops_scan_term)

lemma tn_cops_scan_feed:
  "tn (fst s) < 4 \<Longrightarrow> tn (fst (cops_scan_feed s chs)) < 4"
  by (induction chs arbitrary: s) (simp_all add: tn_cops_scan_step)

lemma cops_run_1a: "cops_scan_feed (cops_scan_reset, cops_msg_init 2) ''(1,a,b,5)''
  = (\<lparr>bo = False, ccd = False, tn = 0, tp = 0, ch_prev = CHR '')''\<rparr>,
     \<lparr>ops = [\<lparr>stat = 1, long_name = CHR ''a'' # replicate 19 (CHR 0x00),
               short_name = CHR ''b'' # replicate 9 (CHR 0x00), num = 5\<rparr>, cops_operator_init],
      opsl = 2, opsi = 1, opf = Some 1\<rparr>)"
  by code_simp

lemma cops_run_1b: "cops_scan_feed (cops_scan_reset, cops_msg_init 1) ''(1,a,b,5''
  = (\<lparr>bo = True, ccd = False, tn = 3, tp = 0, ch_prev = CHR ''5''\<rparr>,
     \<lparr>ops = [\<lparr>stat = 1, long_name = CHR ''a'' # replicate 19 (CHR 0x00),
               short_name = CHR ''b'' # replicate 9 (CHR 0x00), num = 5\<rparr>],
      opsl = 1, opsi = 0, opf = Some 0\<rparr>)"
  by code_simp

text \<open>
  C3.  Once the stop latch \<open>ccd\<close> is set or the array is full (\<open>opsi \<ge> opsl\<close>), a call
  without reset changes nothing: the state of the scanner, the array and the counter
  stay as they are for every character and every sequence of characters.  Two commas
  in a row outside a record set the latch, and the closing bracket of the record that
  fills the last entry makes the array full.  A call with the reset flag puts the
  scanner back into its initial state, with the latch cleared.
\<close>

theorem cops_scan_stop:
  "(ccd (fst s) \<or> opsl (snd s) \<le> opsi (snd s) \<longrightarrow>
      gsmi_parse_cops_scan s ch False = s \<and> cops_scan_feed s chs = s)
   \<and> (\<not> bo (fst s) \<and> \<not> ccd (fst s) \<and> opsi (snd s) < opsl (snd s) \<longrightarrow>
      ccd (fst (cops_scan_feed s '',,'')) \<and> cops_scan_feed s ('',,'' @ chs) = cops_scan_feed s '',,'')
   \<and> (bo (fst s) \<and> \<not> ccd (fst s) \<and> opsi (snd s) + 1 = opsl (snd s) \<longrightarrow>
      opsl (snd (gsmi_parse_cops_scan s (CHR '')'') False))
        \<le> opsi (snd (gsmi_parse_cops_scan s (CHR '')'') False))
      \<and> cops_scan_feed s (CHR '')'' # chs) = gsmi_parse_cops_scan s (CHR '')'') False)
   \<and> fst (gsmi_parse_cops_scan s ch True) = cops_scan_reset"
proof (intro conjI impI)
  assume a: "ccd (fst s) \<or> opsl (snd s) \<le> opsi (snd s)"
  then show "gsmi_parse_cops_scan s ch False = s" by (rule cops_scan_frozen_step)
  from a show "cops_scan_feed s chs = s" by (rule cops_scan_frozen_feed)
next
  assume a: "\<not> bo (fst s) \<and> \<not> ccd (fst s) \<and> opsi (snd s) < opsl (snd s)"
  then have two: "cops_scan_feed s '',,'' = ((fst s)\<lparr>ccd := True, ch_prev := CHR '',''\<rparr>, snd s)"
    by (intro cops_scan_two_commas) simp_all
  then show "ccd (fst (cops_scan_feed s '',,''))" by (simp only: two, simp)
  have "cops_scan_feed (cops_scan_feed s '',,'') chs = cops_scan_feed s '',,''"
    by (rule cops_scan_frozen_feed) (simp only: two, simp)
  then show "cops_scan_feed s ('',,'' @ chs) = cops_scan_feed s '',,''"
    by (simp only: cops_scan_feed_append)
next
  assume a: "bo (fst s) \<and> \<not> ccd (fst s) \<and> opsi (snd s) + 1 = opsl (snd s)"
  then have close: "gsmi_parse_cops_scan s (CHR '')'') False
    = ((fst s)\<lparr>bo := False, tn := 0, tp := 0, ch_prev := CHR '')''\<rparr>,
       (snd s)\<lparr>opsi := opsi (snd s) + 1, opf := map_option (\<lambda>_. opsi (snd s) + 1) (opf (snd s))\<rparr>)"
    by (intro cops_scan_close) simp_all
  with a show full: "opsl (snd (gsmi_parse_cops_scan s (CHR '')'') False))
        \<le> opsi (snd (gsmi_parse_cops_scan s (CHR '')'') False))" by simp
  then have "cops_scan_feed (gsmi_parse_cops_scan s (CHR '')'') False) chs
      = gsmi_parse_cops_scan s (CHR '')'') False"
    by (intro cops_scan_frozen_feed) simp
  then show "cops_scan_feed s (CHR '')'' # chs) = gsmi_parse_cops_scan s (CHR '')'') False" by simp
next
  show "fst (gsmi_parse_cops_scan s ch True) = cops_scan_reset"
    by (simp add: gsmi_parse_cops_scan_def)
qed

theorem cops_scan_stop_witness:
  "cops_scan_feed (cops_scan_reset, cops_msg_init 2) ''(1,a,b,5),,(2,c,d,6)''
     = cops_scan_feed (cops_scan_reset, cops_msg_init 2) ''(1,a,b,5),,''
   \<and> ccd (fst (cops_scan_feed (cops_scan_reset, cops_msg_init 2) ''(1,a,b,5),,''))
   \<and> cops_scan_feed (cops_scan_reset, cops_msg_init 1) ''(1,a,b,5),(2,c,d,6)''
     = cops_scan_feed (cops_scan_reset, cops_msg_init 1) ''(1,a,b,5)''
   \<and> opsi (snd (cops_scan_feed (cops_scan_reset, cops_msg_init 1) ''(1,a,b,5)'')) = 1"
proof -
  let ?s2 = "cops_scan_feed (cops_scan_reset, cops_msg_init 2) ''(1,a,b,5)''"
  let ?s1 = "cops_scan_feed (cops_scan_reset, cops_msg_init 1) ''(1,a,b,5''"
  have a: "\<not> bo (fst ?s2) \<and> \<not> ccd (fst ?s2) \<and> opsi (snd ?s2) < opsl (snd ?s2)"
    by (simp only: cops_run_1a) simp
  have b: "bo (fst ?s1) \<and> \<not> ccd (fst ?s1) \<and> opsi (snd ?s1) + 1 = opsl (snd ?s1)"
    by (simp only: cops_run_1b) simp
  from cops_scan_stop [of ?s2 _ "''(2,c,d,6)''"] a
  have 1: "ccd (fst (cops_scan_feed ?s2 '',,''))"
    and 2: "cops_scan_feed ?s2 ('',,'' @ ''(2,c,d,6)'') = cops_scan_feed ?s2 '',,''" by blast+
  from cops_scan_stop [of ?s1 _ "'',(2,c,d,6)''"] b
  have 3: "cops_scan_feed ?s1 (CHR '')'' # '',(2,c,d,6)'') = gsmi_parse_cops_scan ?s1 (CHR '')'') False"
    by blast
  have 4: "opsi (snd (gsmi_parse_cops_scan ?s1 (CHR '')'') False)) = 1"
    by (simp only: cops_run_1b) (simp add: gsmi_parse_cops_scan_def)
  have s2: "cops_scan_feed (cops_scan_reset, cops_msg_init 2) (''(1,a,b,5)'' @ xs) = cops_scan_feed ?s2 xs" for xs
    by (rule cops_scan_feed_append)
  have s1: "cops_scan_feed (cops_scan_reset, cops_msg_init 1) (''(1,a,b,5'' @ xs) = cops_scan_feed ?s1 xs" for xs
    by (rule cops_scan_feed_append)
  from 1 2 3 4 s2 [of "'',,(2,c,d,6)''"] s2 [of "'',,''"] s1 [of "''),(2,c,d,6)''"] s1 [of "'')''"]
  show ?thesis by simp
qed

lemma cops_scan_field0:
  assumes "bo u" and "\<not> ccd u" and "opsi m < opsl m" and "tn u = 0"
    and "ch \<noteq> CHR '')''" and "ch \<noteq> CHR '',''" and "ch \<noteq> quote"
  shows "gsmi_parse_cops_scan (u, m) ch False
    = (u\<lparr>ch_prev := ch\<rparr>,
       m\<lparr>ops := (ops m)[opsi m := (ops m ! opsi m)\<lparr>stat := accum_digit (stat (ops m ! opsi m)) ch\<rparr>]\<rparr>)"
  using assms by (simp add: gsmi_parse_cops_scan_def cops_scan_term_def Let_def)

lemma foldl_accum_digit:
  "foldl accum_digit x cs
     = x * 10 ^ length cs + horner_sum (\<lambda>c. of_char c - 48) 10 (rev cs)"
proof (induction cs arbitrary: x)
  case Nil
  show ?case by simp
next
  case (Cons c cs)
  have "foldl accum_digit x (c # cs) = foldl accum_digit (accum_digit x c) cs" by simp
  also have "\<dots> = accum_digit x c * 10 ^ length cs
      + horner_sum (\<lambda>c. of_char c - 48) 10 (rev cs)"
    by (rule Cons.IH)
  also have "\<dots> = x * 10 ^ length (c # cs)
      + horner_sum (\<lambda>c. of_char c - 48) 10 (rev (c # cs))"
    by (simp add: accum_digit_def horner_sum_append algebra_simps)
  finally show ?case .
qed

lemma cops_scan_quote:
  assumes "bo u" and "\<not> ccd u" and "opsi m < opsl m"
  shows "gsmi_parse_cops_scan (u, m) quote False = (u\<lparr>ch_prev := quote\<rparr>, m)"
  using assms by (simp add: gsmi_parse_cops_scan_def)

lemma cops_scan_field0_feed:
  assumes "bo u" and "\<not> ccd u" and "opsi m < opsl m" and "tn u = 0"
    and "opsl m \<le> length (ops m)"
    and "\<forall>c\<in>set chs. c \<noteq> CHR '')'' \<and> c \<noteq> CHR '',''"
  shows "cops_scan_feed (u, m) chs
    = (u\<lparr>ch_prev := last (ch_prev u # chs)\<rparr>,
       m\<lparr>ops := (ops m)[opsi m := (ops m ! opsi m)
             \<lparr>stat := foldl accum_digit (stat (ops m ! opsi m)) (filter (\<lambda>c. c \<noteq> quote) chs)\<rparr>]\<rparr>)"
  using assms
proof (induction chs arbitrary: u m)
  case Nil
  then show ?case by simp
next
  case (Cons c chs)
  then have c: "c \<noteq> CHR '')''" "c \<noteq> CHR '',''"
    and chs: "\<forall>c\<in>set chs. c \<noteq> CHR '')'' \<and> c \<noteq> CHR '',''" by simp_all
  have i: "opsi m < length (ops m)" using Cons.prems(3,5) by simp
  show ?case
  proof (cases "c = quote")
    case True
    have step: "gsmi_parse_cops_scan (u, m) c False = (u\<lparr>ch_prev := c\<rparr>, m)"
      using cops_scan_quote [OF Cons.prems(1-3)] True by simp
    have "cops_scan_feed (u\<lparr>ch_prev := c\<rparr>, m) chs
      = (u\<lparr>ch_prev := c\<rparr>\<lparr>ch_prev := last (ch_prev (u\<lparr>ch_prev := c\<rparr>) # chs)\<rparr>,
         m\<lparr>ops := (ops m)[opsi m := (ops m ! opsi m)
             \<lparr>stat := foldl accum_digit (stat (ops m ! opsi m)) (filter (\<lambda>c. c \<noteq> quote) chs)\<rparr>]\<rparr>)"
      using Cons.prems(1-5) chs by (intro Cons.IH) simp_all
    with step True show ?thesis by simp
  next
    case False
    let ?op = "(ops m ! opsi m)\<lparr>stat := accum_digit (stat (ops m ! opsi m)) c\<rparr>"
    let ?m = "m\<lparr>ops := (ops m)[opsi m := ?op]\<rparr>"
    have step: "gsmi_parse_cops_scan (u, m) c False = (u\<lparr>ch_prev := c\<rparr>, ?m)"
      using Cons.prems(1-4) c False by (intro cops_scan_field0) simp_all
    have "cops_scan_feed (u\<lparr>ch_prev := c\<rparr>, ?m) chs
      = (u\<lparr>ch_prev := c\<rparr>\<lparr>ch_prev := last (ch_prev (u\<lparr>ch_prev := c\<rparr>) # chs)\<rparr>,
         ?m\<lparr>ops := (ops ?m)[opsi ?m := (ops ?m ! opsi ?m)
             \<lparr>stat := foldl accum_digit (stat (ops ?m ! opsi ?m)) (filter (\<lambda>c. c \<noteq> quote) chs)\<rparr>]\<rparr>)"
      using Cons.prems(1-5) chs by (intro Cons.IH) simp_all
    with step False i show ?thesis by simp
  qed
qed



text \<open>
  C1, as amended.  After a reset the field index \<open>tn\<close> is in 0..3 whatever is fed.  A
  comma inside a record advances it modulo 4 and puts the character position back to 0:
  when the index is 3, a further comma inside the same record wraps it to 0, and all the
  characters that follow it up to the next comma or the closing bracket, the quotes left
  out, are accumulated by \<open>value * 10 + (ch - '0')\<close> into field 0, the status, of the
  same entry (an entry of the array, which has at least \<open>opsl\<close> entries); a comma after
  them advances the index again.
\<close>

theorem cops_scan_field_index:
  "tn (fst (cops_scan_feed (cops_scan_reset, m0) chs0)) < 4
   \<and> (bo u \<and> \<not> ccd u \<and> opsi m < opsl m \<longrightarrow>
        gsmi_parse_cops_scan (u, m) (CHR '','') False
          = (u\<lparr>tn := (tn u + 1) mod 4, tp := 0, ch_prev := CHR '',''\<rparr>, m))
   \<and> (bo u \<and> \<not> ccd u \<and> opsi m < opsl m \<and> tn u = 3 \<longrightarrow>
        gsmi_parse_cops_scan (u, m) (CHR '','') False
          = (u\<lparr>tn := 0, tp := 0, ch_prev := CHR '',''\<rparr>, m)
        \<and> (opsl m \<le> length (ops m) \<and> (\<forall>c\<in>set chs. c \<noteq> CHR '')'' \<and> c \<noteq> CHR '','') \<longrightarrow>
             cops_scan_feed (u, m) (CHR '','' # chs)
               = (u\<lparr>tn := 0, tp := 0, ch_prev := last (CHR '','' # chs)\<rparr>,
                  m\<lparr>ops := (ops m)[opsi m := (ops m ! opsi m)
                       \<lparr>stat := stat (ops m ! opsi m) * 10 ^ length (filter (\<lambda>c. c \<noteq> quote) chs)
                          + horner_sum (\<lambda>c. of_char c - 48) 10
                              (rev (filter (\<lambda>c. c \<noteq> quote) chs))\<rparr>]\<rparr>)))"
proof -
  have inv: "tn (fst (cops_scan_feed (cops_scan_reset, m0) chs0)) < 4"
    by (rule tn_cops_scan_feed) (simp add: cops_scan_reset_def)
  have comma: "gsmi_parse_cops_scan (u, m) (CHR '','') False
          = (u\<lparr>tn := (tn u + 1) mod 4, tp := 0, ch_prev := CHR '',''\<rparr>, m)"
    if "bo u \<and> \<not> ccd u \<and> opsi m < opsl m"
    using that cops_scan_comma [of "(u, m)"] by simp
  have wrap: "gsmi_parse_cops_scan (u, m) (CHR '','') False
          = (u\<lparr>tn := 0, tp := 0, ch_prev := CHR '',''\<rparr>, m)"
    if "bo u \<and> \<not> ccd u \<and> opsi m < opsl m \<and> tn u = 3"
    using that comma by simp
  have field0: "cops_scan_feed (u, m) (CHR '','' # chs)
               = (u\<lparr>tn := 0, tp := 0, ch_prev := last (CHR '','' # chs)\<rparr>,
                  m\<lparr>ops := (ops m)[opsi m := (ops m ! opsi m)
                       \<lparr>stat := stat (ops m ! opsi m) * 10 ^ length (filter (\<lambda>c. c \<noteq> quote) chs)
                          + horner_sum (\<lambda>c. of_char c - 48) 10
                              (rev (filter (\<lambda>c. c \<noteq> quote) chs))\<rparr>]\<rparr>)"
    if a: "bo u \<and> \<not> ccd u \<and> opsi m < opsl m \<and> tn u = 3"
      and b: "opsl m \<le> length (ops m) \<and> (\<forall>c\<in>set chs. c \<noteq> CHR '')'' \<and> c \<noteq> CHR '','')"
  proof -
    let ?u = "u\<lparr>tn := 0, tp := 0, ch_prev := CHR '',''\<rparr>"
    have "cops_scan_feed (?u, m) chs
      = (?u\<lparr>ch_prev := last (ch_prev ?u # chs)\<rparr>,
         m\<lparr>ops := (ops m)[opsi m := (ops m ! opsi m)
             \<lparr>stat := foldl accum_digit (stat (ops m ! opsi m)) (filter (\<lambda>c. c \<noteq> quote) chs)\<rparr>]\<rparr>)"
      using a b by (intro cops_scan_field0_feed) simp_all
    then show ?thesis by (simp add: wrap [OF a] foldl_accum_digit)
  qed
  from inv comma wrap field0 show ?thesis by blast
qed

theorem cops_scan_field_index_witness:
  "cops_scan_feed (cops_scan_reset, cops_msg_init 1) ''(1,a,b,5''
     = (\<lparr>bo = True, ccd = False, tn = 3, tp = 0, ch_prev = CHR ''5''\<rparr>,
        \<lparr>ops = [\<lparr>stat = 1, long_name = CHR ''a'' # replicate 19 (CHR 0x00),
                  short_name = CHR ''b'' # replicate 9 (CHR 0x00), num = 5\<rparr>],
         opsl = 1, opsi = 0, opf = Some 0\<rparr>)
   \<and> cops_scan_feed (cops_scan_reset, cops_msg_init 1) ''(1,a,b,5,7\"8''
     = (\<lparr>bo = True, ccd = False, tn = 0, tp = 0, ch_prev = CHR ''8''\<rparr>,
        \<lparr>ops = [\<lparr>stat = 178, long_name = CHR ''a'' # replicate 19 (CHR 0x00),
                  short_name = CHR ''b'' # replicate 9 (CHR 0x00), num = 5\<rparr>],
         opsl = 1, opsi = 0, opf = Some 0\<rparr>)"
proof -
  let ?u = "\<lparr>bo = True, ccd = False, tn = 3, tp = 0, ch_prev = CHR ''5''\<rparr>"
  let ?m = "\<lparr>ops = [\<lparr>stat = 1, long_name = CHR ''a'' # replicate 19 (CHR 0x00),
                  short_name = CHR ''b'' # replicate 9 (CHR 0x00), num = 5\<rparr>],
         opsl = 1, opsi = 0, opf = Some 0\<rparr>"
  let ?chs = "''7\"8''"
  let ?cs = "filter (\<lambda>c. c \<noteq> quote) ?chs"
  have run: "cops_scan_feed (cops_scan_reset, cops_msg_init 1) ''(1,a,b,5'' = (?u, ?m)"
    by (rule cops_run_1b)
  have lit: "''(1,a,b,5'' @ CHR '','' # ?chs = ''(1,a,b,5,7\"8''" by simp
  have "cops_scan_feed (cops_scan_reset, cops_msg_init 1) (''(1,a,b,5'' @ CHR '','' # ?chs)
        = cops_scan_feed (cops_scan_feed (cops_scan_reset, cops_msg_init 1) ''(1,a,b,5'') (CHR '','' # ?chs)"
    by (rule cops_scan_feed_append)
  also have "\<dots> = cops_scan_feed (?u, ?m) (CHR '','' # ?chs)"
    by (simp only: run)
  also have "\<dots>
     = (?u\<lparr>tn := 0, tp := 0, ch_prev := last (CHR '','' # ?chs)\<rparr>,
        ?m\<lparr>ops := (ops ?m)[opsi ?m := (ops ?m ! opsi ?m)
              \<lparr>stat := stat (ops ?m ! opsi ?m) * 10 ^ length ?cs
                  + horner_sum (\<lambda>c. of_char c - 48) 10 (rev ?cs)\<rparr>]\<rparr>)"
  proof -
    have hyp: "bo ?u \<and> \<not> ccd ?u \<and> opsi ?m < opsl ?m \<and> tn ?u = 3" by simp
    have ch: "opsl ?m \<le> length (ops ?m) \<and> (\<forall>c\<in>set ?chs. c \<noteq> CHR '')'' \<and> c \<noteq> CHR '','')" by simp
    from cops_scan_field_index [of "cops_msg_init 1" "[]" ?u ?m ?chs] hyp ch
    show ?thesis by blast
  qed
  also have "\<dots>
     = (\<lparr>bo = True, ccd = False, tn = 0, tp = 0, ch_prev = CHR ''8''\<rparr>,
        \<lparr>ops = [\<lparr>stat = 178, long_name = CHR ''a'' # replicate 19 (CHR 0x00),
                  short_name = CHR ''b'' # replicate 9 (CHR 0x00), num = 5\<rparr>],
         opsl = 1, opsi = 0, opf = Some 0\<rparr>)"
    by simp
  finally have wrapped: "cops_scan_feed (cops_scan_reset, cops_msg_init 1) ''(1,a,b,5,7\"8''
     = (\<lparr>bo = True, ccd = False, tn = 0, tp = 0, ch_prev = CHR ''8''\<rparr>,
        \<lparr>ops = [\<lparr>stat = 178, long_name = CHR ''a'' # replicate 19 (CHR 0x00),
                  short_name = CHR ''b'' # replicate 9 (CHR 0x00), num = 5\<rparr>],
         opsl = 1, opsi = 0, opf = Some 0\<rparr>)"
    unfolding lit .
  show ?thesis by (rule conjI [OF run wrapped])
qed

text \<open>
  C1 as stated has a comma at index 3 absorbed.  After \<open>(1,a,b,5\<close> the index is 3; the next
  comma makes it 0, and the digit 7 after it turns the status 1 into 17 and leaves the
  number at 5.
\<close>

theorem cops_scan_wrap_counterexample:
  "tn (fst (cops_scan_feed (cops_scan_reset, cops_msg_init 1) ''(1,a,b,5'')) = 3
   \<and> bo (fst (cops_scan_feed (cops_scan_reset, cops_msg_init 1) ''(1,a,b,5''))
   \<and> tn (fst (cops_scan_feed (cops_scan_reset, cops_msg_init 1) ''(1,a,b,5,'')) = 0
   \<and> map num (ops (snd (cops_scan_feed (cops_scan_reset, cops_msg_init 1) ''(1,a,b,5''))) = [5]
   \<and> map stat (ops (snd (cops_scan_feed (cops_scan_reset, cops_msg_init 1) ''(1,a,b,5''))) = [1]
   \<and> map num (ops (snd (cops_scan_feed (cops_scan_reset, cops_msg_init 1) ''(1,a,b,5,7''))) = [5]
   \<and> map stat (ops (snd (cops_scan_feed (cops_scan_reset, cops_msg_init 1) ''(1,a,b,5,7''))) = [17]"
  by code_simp

subsection \<open>The SIM status\<close>

lemma strncmp_eq_take: "strncmp_eq s1 s2 n = (take n s1 = take n s2)"
  by (induction s1 s2 n rule: strncmp_eq.induct) auto

text \<open>
  A body that starts with \<open>READY\<close> sets the state READY and calls \<open>gsmi_get_sim_info\<close>
  once; a body that starts with \<open>SIM PIN\<close> sets the state PIN and makes no call.
\<close>

lemma parse_cpin_ready:
  assumes "prefix ''READY'' body"
  shows "gsmi_parse_cpin g body False
         = Some (g\<lparr>sim_state := GSM_SIM_STATE_READY, calls := calls g @ [Call_gsmi_get_sim_info 0]\<rparr>)"
proof -
  obtain r where body: "body = ''READY'' @ r" using assms by (auto simp: prefix_def)
  show ?thesis by (simp add: gsmi_parse_cpin_def strncmp_eq_take body)
qed

lemma parse_cpin_sim_pin:
  assumes "prefix ''SIM PIN'' body"
  shows "gsmi_parse_cpin g body False = Some (g\<lparr>sim_state := GSM_SIM_STATE_PIN\<rparr>)"
proof -
  obtain r where body: "body = ''SIM PIN'' @ r" using assms by (auto simp: prefix_def)
  show ?thesis by (simp add: gsmi_parse_cpin_def strncmp_eq_take body)
qed

text \<open>
  C2.  The comparison with \<open>NOT INSERTED\<close> runs over 14 characters, two more than the
  literal has, so it succeeds only when the body is the literal and nothing more: a body that has
  \<open>NOT INSERTED\<close> as a proper prefix, as the line of the device with its CR and LF, falls
  through to the last branch and sets NOT\_READY, while \<open>SIM PIN\<close> before CR and LF is
  matched by its prefix.
\<close>

theorem parse_cpin_not_inserted:
  "gsmi_parse_cpin gsm_init (''NOT INSERTED'' @ [CR, LF]) False
     = Some (gsm_init\<lparr>sim_state := GSM_SIM_STATE_NOT_READY\<rparr>)
   \<and> gsmi_parse_cpin gsm_init (''+CPIN: NOT INSERTED'' @ [CR, LF]) False
     = Some (gsm_init\<lparr>sim_state := GSM_SIM_STATE_NOT_READY\<rparr>)
   \<and> gsmi_parse_cpin gsm_init ''NOT INSERTED'' False
     = Some (gsm_init\<lparr>sim_state := GSM_SIM_STATE_NOT_INSERTED\<rparr>)
   \<and> gsmi_parse_cpin gsm_init (''SIM PIN'' @ [CR, LF]) False
     = Some (gsm_init\<lparr>sim_state := GSM_SIM_STATE_PIN\<rparr>)
   \<and> prefix ''NOT INSERTED'' (''NOT INSERTED'' @ [CR, LF])"
  by (simp add: gsmi_parse_cpin_def strncmp_eq_take gsm_init_def)

subsection \<open>Sending an SMS\<close>

text \<open>
  C10.  For every call of \<open>gsm_sms_send\<close> with \<open>num\<close> not \<open>NULL\<close> and \<open>text\<close> \<open>NULL\<close>, no
  assertion rejects the call: both conditions test \<open>num\<close>, and the call reaches
  \<open>strlen(text)\<close> on the null pointer.
\<close>

theorem sms_send_null_text:
  "gsm_sms_send enabled (Some n) None blocking = Strlen_of_NULL"
  by (simp add: gsm_sms_send_def)

theorem sms_send_null_text_witness:
  "gsm_sms_send True (Some ''+38640123456'') None 1 = Strlen_of_NULL
   \<and> gsm_sms_send True None None 1 = Assert_failed ''num != NULL''
   \<and> gsm_sms_send True (Some ''+38640123456'') (Some (replicate 161 (CHR ''a''))) 1
       = Assert_failed ''text != NULL && strlen(text) <= 160''"
  using sms_send_null_text [of True "''+38640123456''" 1]
  by (simp add: gsm_sms_send_def)

end
